theory Spec2Isabelle
  imports Main "HOL-Library.Multiset"
begin

section \<open>Data model\<close>

text \<open>
  The Go structs of the comparison tool. A \<open>*FileInfo\<close> is never written after it has been
  built, so a record pointer is modelled by the record's value: whether a record is skipped,
  modified or unique depends on its fields only, and two pointers to equal values are handled
  alike. Go maps are partial functions; the comma-ok lookup \<open>_, ok := m[k]\<close> is
  \<open>m k \<noteq> None\<close>. Fields that several structs share (\<open>Name\<close>, \<open>Files\<close>,
  \<open>RootDir\<close>) are written with the struct's name in front.
\<close>

record FileInfo =
  RelativePath :: string
  AbsolutePath :: string
  Name :: string
  Hash :: string
  Size :: int
  RootDir :: string

record FileSet =
  Files :: "FileInfo list"
  NameMap :: "string \<rightharpoonup> FileInfo list"
  HashMap :: "string \<rightharpoonup> FileInfo list"

record ComparisonResult =
  SameNameDifferentHash :: "FileInfo list"
  NameMappings :: "string \<rightharpoonup> FileInfo list"
  UniqueToSet2 :: "FileInfo list"
  UniqueToSet1 :: "FileInfo list"

text \<open>
  Go's \<open>error\<close> values: those of the operating system, and the two that the scanner wraps
  with \<open>fmt.Errorf\<close>.
\<close>

datatype error =
  OSError string
  | CouldNotHash string error
  | ErrorWalking string error

text \<open>
  What \<open>os.FileInfo\<close> tells the scanner about a directory entry (its methods \<open>Name()\<close>,
  \<open>Size()\<close> and \<open>IsDir()\<close>).
\<close>

record os_FileInfo =
  InfoName :: string
  InfoSize :: int
  InfoIsDir :: bool

record FileTask =
  Path :: string
  Info :: os_FileInfo
  RootDir :: string
  RelPath :: string

text \<open>A \<open>FileJob\<close> has one field, the batch of tasks.\<close>

type_synonym FileJob = "FileTask list"

record FileResult =
  FileInfos :: "FileInfo list"
  Errors :: "error list"

text \<open>The lines the scanner prints on standard output.\<close>

datatype message =
  WarnDirMissing string
  | WarnAccess string error
  | WarnCouldNotHash string error
  | WarnError error

section \<open>The environment of a scan\<close>

text \<open>
  The scanner reads the file system through four library calls, which the model takes from
  the environment.
  \<^item> \<open>isNotExist dir\<close>: \<open>os.Stat(dir)\<close> fails with an error that \<open>os.IsNotExist\<close> accepts.
  \<^item> \<open>walkVisits root\<close>: the calls \<open>filepath.Walk(root, fn)\<close> makes to \<open>fn\<close>, in order,
    as long as \<open>fn\<close> returns \<open>nil\<close>: an entry with its \<open>os.FileInfo\<close>, or a path with the
    error met there. \<open>walkFailure root\<close> is a failure of the traversal itself, reported
    when the visits are over.
  \<^item> \<open>filepathRel dir path\<close>: \<open>filepath.Rel(dir, path)\<close>.
  \<^item> \<open>hashFile path\<close>: the lowercase hexadecimal SHA-256 digest of the file's bytes, or the
    error of \<open>os.Open\<close> or \<open>io.Copy\<close>.
  The scheduler of the goroutines is part of the environment too: \<open>numCPU\<close> is
  \<open>runtime.NumCPU()\<close>, and \<open>arrival n\<close> lists the indexes of \<open>n\<close> jobs in the order in
  which their results reach the result channel.
\<close>

datatype visit = Entry string os_FileInfo | EntryError string error

record environment =
  isNotExist :: "string \<Rightarrow> bool"
  walkVisits :: "string \<Rightarrow> visit list"
  walkFailure :: "string \<Rightarrow> error option"
  filepathRel :: "string \<Rightarrow> string \<Rightarrow> error + string"
  hashFile :: "string \<Rightarrow> error + string"
  numCPU :: nat
  arrival :: "nat \<Rightarrow> nat list"

section \<open>The scanner\<close>

text \<open>
  The three statements that enter a record in a catalog; \<open>processFilesSequentially\<close> and
  \<open>processFilesInParallel\<close> both end their loop body with them. A missing key reads as the
  nil slice, so \<open>append\<close> starts a new list.
\<close>

definition lookupList :: "(string \<rightharpoonup> FileInfo list) \<Rightarrow> string \<Rightarrow> FileInfo list" where
  "lookupList m k = (case m k of None \<Rightarrow> [] | Some l \<Rightarrow> l)"

definition addFileInfo :: "FileInfo \<Rightarrow> FileSet \<Rightarrow> FileSet" where
  "addFileInfo fileInfo fileSet =
     \<lparr>FileSet.Files = FileSet.Files fileSet @ [fileInfo],
      NameMap = (NameMap fileSet)
        (FileInfo.Name fileInfo \<mapsto> lookupList (NameMap fileSet) (FileInfo.Name fileInfo) @ [fileInfo]),
      HashMap = (HashMap fileSet)
        (Hash fileInfo \<mapsto> lookupList (HashMap fileSet) (Hash fileInfo) @ [fileInfo])\<rparr>"

definition emptyFileSet :: FileSet where
  "emptyFileSet = \<lparr>FileSet.Files = [], NameMap = Map.empty, HashMap = Map.empty\<rparr>"

text \<open>The \<open>FileInfo\<close> literal that both paths build from a task and its hash.\<close>

definition newFileInfo :: "FileTask \<Rightarrow> string \<Rightarrow> FileInfo" where
  "newFileInfo task hash =
     \<lparr>RelativePath = RelPath task, AbsolutePath = Path task,
      FileInfo.Name = InfoName (Info task), Hash = hash, Size = InfoSize (Info task),
      FileInfo.RootDir = FileTask.RootDir task\<rparr>"

text \<open>
  \<open>processFilesSequentially\<close>: the loop over the tasks, on the catalog and the printed
  output. Its second result is always \<open>nil\<close> in the source and is left out.
\<close>

fun sequentialLoop ::
  "environment \<Rightarrow> FileTask list \<Rightarrow> FileSet \<times> message list
     \<Rightarrow> FileSet \<times> message list" where
  "sequentialLoop env [] (fileSet, out) = (fileSet, out)"
| "sequentialLoop env (task # tasks) (fileSet, out) =
     (case hashFile env (Path task) of
        Inl err \<Rightarrow> sequentialLoop env tasks (fileSet, out @ [WarnCouldNotHash (Path task) err])
      | Inr hash \<Rightarrow>
          sequentialLoop env tasks (addFileInfo (newFileInfo task hash) fileSet, out))"

definition processFilesSequentially ::
  "environment \<Rightarrow> FileTask list \<Rightarrow> message list \<Rightarrow> FileSet \<times> message list" where
  "processFilesSequentially env tasks out = sequentialLoop env tasks (emptyFileSet, out)"

text \<open>
  \<open>hashWorker\<close> on one job: the inner loop fills one \<open>FileResult\<close>, which the worker
  sends on the result channel.
\<close>

fun hashBatch :: "environment \<Rightarrow> FileTask list \<Rightarrow> FileResult \<Rightarrow> FileResult" where
  "hashBatch env [] batch = batch"
| "hashBatch env (task # tasks) batch =
     (case hashFile env (Path task) of
        Inl err \<Rightarrow>
          hashBatch env tasks (batch\<lparr>Errors := Errors batch @ [CouldNotHash (Path task) err]\<rparr>)
      | Inr hash \<Rightarrow>
          hashBatch env tasks
            (batch\<lparr>FileInfos := FileInfos batch @ [newFileInfo task hash]\<rparr>))"

definition hashWorker :: "environment \<Rightarrow> FileJob \<Rightarrow> FileResult" where
  "hashWorker env job = hashBatch env job \<lparr>FileInfos = [], Errors = []\<rparr>"

text \<open>
  The worker count \<open>int(float64(runtime.NumCPU()) * 0.75)\<close>, at least 1: the conversion
  truncates, which on a count of processors is the integer quotient of \<open>3 * n\<close> by 4.
\<close>

definition numWorkers :: "nat \<Rightarrow> nat" where
  "numWorkers ncpu = (let n = (ncpu * 3) div 4 in if n < 1 then 1 else n)"

definition minBatchSize :: nat where
  "minBatchSize = 10"

definition batchSizeFor :: "nat \<Rightarrow> nat \<Rightarrow> nat" where
  "batchSizeFor len workers =
     (let batchSize = len div (workers * 2) in
      if batchSize < minBatchSize then minBatchSize else batchSize)"

text \<open>
  The loop \<open>for i := 0; i < len(tasks); i += batchSize\<close> that cuts the tasks into jobs.
  The source runs it with \<open>batchSize \<ge> 10\<close> only; the test \<open>0 < batchSize\<close> makes the
  model total.
\<close>

function createBatches :: "nat \<Rightarrow> nat \<Rightarrow> FileTask list \<Rightarrow> FileJob list" where
  "createBatches batchSize i tasks =
     (if i < length tasks \<and> 0 < batchSize
      then (let endIndex = (if i + batchSize > length tasks then length tasks else i + batchSize)
            in take (endIndex - i) (drop i tasks) # createBatches batchSize (i + batchSize) tasks)
      else [])"
  by pat_completeness auto
termination
  by (relation "measure (\<lambda>(batchSize, i, tasks). length tasks - i)") auto

declare createBatches.simps [simp del]

text \<open>The collecting loop over the result channel: one result, then all of them.\<close>

fun collectResult :: "FileResult \<Rightarrow> FileSet \<times> message list \<Rightarrow> FileSet \<times> message list" where
  "collectResult result (fileSet, out) =
     (fold addFileInfo (FileInfos result) fileSet, out @ map WarnError (Errors result))"

text \<open>
  \<open>processFilesInParallel\<close>. Every job is taken by one worker, which sends one result; the
  results are collected in the order of their arrival, until the channel is closed after
  the last worker has finished. The order of arrival is the scheduler's; it lists indexes
  of jobs.
\<close>

definition processFilesInParallel ::
  "environment \<Rightarrow> FileTask list \<Rightarrow> message list \<Rightarrow> FileSet \<times> message list" where
  "processFilesInParallel env tasks out =
     (let jobs = createBatches (batchSizeFor (length tasks) (numWorkers (numCPU env))) 0 tasks;
          results = map (hashWorker env) jobs
      in fold collectResult (map (\<lambda>i. results ! i) (arrival env (length jobs)))
           (emptyFileSet, out))"

text \<open>
  The first phase of \<open>walkDirectoriesWithLimit\<close>: the callback given to
  \<open>filepath.Walk\<close>, on the variables \<open>allTasks\<close> and \<open>taskCount\<close> it captures and on the
  printed output. It returns \<open>nil\<close> or \<open>filepath.SkipAll\<close>.
\<close>

record collecting =
  allTasks :: "FileTask list"
  taskCount :: int
  printed :: "message list"

datatype walkReturn = ReturnNil | SkipAll

fun walkFn :: "environment \<Rightarrow> int \<Rightarrow> string \<Rightarrow> visit \<Rightarrow> collecting \<Rightarrow> walkReturn \<times> collecting" where
  "walkFn env limit dir (EntryError path err) st =
     (ReturnNil, st\<lparr>printed := printed st @ [WarnAccess path err]\<rparr>)"
| "walkFn env limit dir (Entry path info) st =
     (if InfoIsDir info then (ReturnNil, st)
      else if limit > 0 \<and> taskCount st \<ge> limit then (SkipAll, st)
      else
        (let relPath = (case filepathRel env dir path of Inr r \<Rightarrow> r | Inl err \<Rightarrow> path);
             task = \<lparr>Path = path, Info = info, FileTask.RootDir = dir, RelPath = relPath\<rparr>
         in (ReturnNil, st\<lparr>allTasks := allTasks st @ [task], taskCount := taskCount st + 1\<rparr>)))"

text \<open>
  \<open>filepath.Walk\<close> with this callback: the visits in order; \<open>SkipAll\<close> ends the walk with
  \<open>nil\<close>; when the visits are over the walk returns the traversal's own failure, if any.
\<close>

fun Walk ::
  "(visit \<Rightarrow> collecting \<Rightarrow> walkReturn \<times> collecting) \<Rightarrow> visit list \<Rightarrow> error option
     \<Rightarrow> collecting \<Rightarrow> error option \<times> collecting" where
  "Walk fn [] failure st = (failure, st)"
| "Walk fn (v # vs) failure st =
     (case fn v st of
        (ReturnNil, st') \<Rightarrow> Walk fn vs failure st'
      | (SkipAll, st') \<Rightarrow> (None, st'))"

text \<open>The loop over the root directories.\<close>

fun collectTasks :: "environment \<Rightarrow> int \<Rightarrow> string list \<Rightarrow> collecting \<Rightarrow> error + collecting" where
  "collectTasks env limit [] st = Inr st"
| "collectTasks env limit (dir # dirs) st =
     (if isNotExist env dir
      then collectTasks env limit dirs (st\<lparr>printed := printed st @ [WarnDirMissing dir]\<rparr>)
      else (case Walk (walkFn env limit dir) (walkVisits env dir) (walkFailure env dir) st of
              (Some err, st') \<Rightarrow> Inl (ErrorWalking dir err)
            | (None, st') \<Rightarrow> collectTasks env limit dirs st'))"

definition minFilesForParallelization :: nat where
  "minFilesForParallelization = 20"

text \<open>
  \<open>walkDirectoriesWithLimit\<close> returns the catalog or the error. The lines printed up to the
  return are not part of the result of the source; the model returns them beside a catalog.
\<close>

definition walkDirectoriesWithLimit ::
  "environment \<Rightarrow> string list \<Rightarrow> int \<Rightarrow> error + FileSet \<times> message list" where
  "walkDirectoriesWithLimit env dirs limit =
     (case collectTasks env limit dirs \<lparr>allTasks = [], taskCount = 0, printed = []\<rparr> of
        Inl err \<Rightarrow> Inl err
      | Inr st \<Rightarrow>
          if length (allTasks st) < minFilesForParallelization
          then Inr (processFilesSequentially env (allTasks st) (printed st))
          else Inr (processFilesInParallel env (allTasks st) (printed st)))"

definition walkDirectories :: "environment \<Rightarrow> string list \<Rightarrow> error + FileSet \<times> message list" where
  "walkDirectories env dirs = walkDirectoriesWithLimit env dirs (- 1)"

section \<open>The differ: compareFileSets\<close>

text \<open>The first loop of \<open>compareFileSets\<close>, over \<open>set2.Files\<close>.\<close>

fun compareSet2Loop :: "FileSet \<Rightarrow> FileInfo list \<Rightarrow> ComparisonResult \<Rightarrow> ComparisonResult" where
  "compareSet2Loop set1 [] result = result"
| "compareSet2Loop set1 (file2 # rest) result =
     (if HashMap set1 (Hash file2) \<noteq> None then compareSet2Loop set1 rest result
      else (case NameMap set1 (FileInfo.Name file2) of
              Some files1WithSameName \<Rightarrow>
                compareSet2Loop set1 rest
                  (result\<lparr>SameNameDifferentHash := SameNameDifferentHash result @ [file2],
                          NameMappings := (NameMappings result)(FileInfo.Name file2 \<mapsto> files1WithSameName)\<rparr>)
            | None \<Rightarrow>
                compareSet2Loop set1 rest
                  (result\<lparr>UniqueToSet2 := UniqueToSet2 result @ [file2]\<rparr>)))"

text \<open>The second loop, over \<open>set1.Files\<close>.\<close>

fun compareSet1Loop :: "FileSet \<Rightarrow> FileInfo list \<Rightarrow> ComparisonResult \<Rightarrow> ComparisonResult" where
  "compareSet1Loop set2 [] result = result"
| "compareSet1Loop set2 (file1 # rest) result =
     (if HashMap set2 (Hash file1) \<noteq> None then compareSet1Loop set2 rest result
      else if NameMap set2 (FileInfo.Name file1) = None
        then compareSet1Loop set2 rest (result\<lparr>UniqueToSet1 := UniqueToSet1 result @ [file1]\<rparr>)
        else compareSet1Loop set2 rest result)"

definition compareFileSets :: "FileSet \<Rightarrow> FileSet \<Rightarrow> ComparisonResult" where
  "compareFileSets set1 set2 =
     compareSet1Loop set2 (FileSet.Files set1)
       (compareSet2Loop set1 (FileSet.Files set2)
          \<lparr>SameNameDifferentHash = [], NameMappings = Map.empty,
           UniqueToSet2 = [], UniqueToSet1 = []\<rparr>)"

section \<open>The directory collapser\<close>

subsection \<open>Tree nodes in a heap\<close>

text \<open>
  A \<open>*TreeNode\<close> is an address in a heap of nodes: the functions below follow
  \<open>Children\<close> downwards and \<open>Parent\<close> upwards and update nodes in place. The heap is
  the list of the nodes allocated so far, a new node gets the next index, and the root of a
  tree that \<open>buildTree\<close> or \<open>buildSmartTree\<close> returns is the node at address 0. The
  map \<open>Children\<close> is the list of its entries, in the order of their insertion; a key
  is looked up with \<open>map_of\<close>, and a loop over the map, whose order Go leaves open, takes
  the entries in the order of the list. The nil pointer is \<open>None\<close> in \<open>Parent\<close>.
\<close>

type_synonym addr = nat

record TreeNode =
  Name :: string
  IsDir :: bool
  Files :: "FileInfo list"
  Children :: "(string \<times> addr) list"
  Parent :: "addr option"
  IsEntireDir :: bool

type_synonym heap = "TreeNode list"

subsection \<open>Paths\<close>

text \<open>
  The path separator is the slash, as on Unix. \<open>splitSep\<close> is
  \<open>strings.Split(s, "/")\<close> and \<open>joinSep\<close> is \<open>strings.Join(parts, "/")\<close>.
\<close>

fun splitSep :: "string \<Rightarrow> string list" where
  "splitSep [] = [[]]"
| "splitSep (c # cs) =
     (if c = CHR ''/'' then [] # splitSep cs
      else (c # hd (splitSep cs)) # tl (splitSep cs))"

fun joinSep :: "string list \<Rightarrow> string" where
  "joinSep [] = []"
| "joinSep [p] = p"
| "joinSep (p # q # ps) = p @ ''/'' @ joinSep (q # ps)"

text \<open>
  \<open>filepath.Dir\<close> of the Go library, for Unix paths: the path up to its last slash,
  cleaned. \<open>filepath.Clean\<close> drops empty and \<open>.\<close> elements, lets \<open>..\<close> cancel the
  element before it (at a root \<open>..\<close> is dropped, at the start of a relative path it is
  kept), and returns \<open>.\<close> for an empty result.
\<close>

fun cleanElements :: "bool \<Rightarrow> string list \<Rightarrow> string list \<Rightarrow> string list" where
  "cleanElements rooted [] out = out"
| "cleanElements rooted (elem # elems) out =
     (if elem = [] \<or> elem = ''.'' then cleanElements rooted elems out
      else if elem = ''..'' then
        (if out \<noteq> [] \<and> last out \<noteq> ''..'' then cleanElements rooted elems (butlast out)
         else if rooted then cleanElements rooted elems out
         else cleanElements rooted elems (out @ [''..'']))
      else cleanElements rooted elems (out @ [elem]))"

definition Clean :: "string \<Rightarrow> string" where
  "Clean path =
     (if path = [] then ''.''
      else (let rooted = (hd path = CHR ''/'');
                cleaned = (if rooted then ''/'' else []) @ joinSep (cleanElements rooted (splitSep path) [])
            in if cleaned = [] then ''.'' else cleaned))"

definition Dir :: "string \<Rightarrow> string" where
  "Dir path = Clean (rev (dropWhile (\<lambda>c. c \<noteq> CHR ''/'') (rev path)))"

subsection \<open>buildTree and buildSmartTree\<close>

text \<open>
  The loop \<open>for dir != "." && dir != ""\<close> that enters a directory and its ancestors in
  \<open>directoriesInSourceSet\<close>, a \<open>map[string]bool\<close> in which a missing key reads as
  \<open>false\<close>. On a path whose \<open>Dir\<close> never reaches \<open>.\<close> the loop does not end, and
  the result is \<open>None\<close>.
\<close>

partial_function (option) markSourceDirs :: "string \<Rightarrow> (string \<Rightarrow> bool) \<Rightarrow> (string \<Rightarrow> bool) option" where
  "markSourceDirs dir directoriesInSourceSet =
     (if dir \<noteq> ''.'' \<and> dir \<noteq> []
      then markSourceDirs (Dir dir) (directoriesInSourceSet(dir := True))
      else Some directoriesInSourceSet)"

declare markSourceDirs.simps [code]

fun directoriesLoop :: "FileInfo list \<Rightarrow> (string \<Rightarrow> bool) \<Rightarrow> (string \<Rightarrow> bool) option" where
  "directoriesLoop [] directoriesInSourceSet = Some directoriesInSourceSet"
| "directoriesLoop (file # files) directoriesInSourceSet =
     (case markSourceDirs (Dir (RelativePath file)) directoriesInSourceSet of
        None \<Rightarrow> None
      | Some marked \<Rightarrow> directoriesLoop files marked)"

text \<open>
  The loop over the parts of one relative path: the last part attaches the file to the
  current node, every other part moves to the child of that name, which is created when
  the lookup gives nil. \<open>strings.Split\<close> never returns an empty slice.
\<close>

definition newRoot :: TreeNode where
  "newRoot = \<lparr>TreeNode.Name = [], IsDir = True, TreeNode.Files = [], Children = [], Parent = None,
              IsEntireDir = False\<rparr>"

fun insertParts :: "FileInfo \<Rightarrow> string list \<Rightarrow> addr \<Rightarrow> heap \<Rightarrow> heap" where
  "insertParts file [] current h = h"
| "insertParts file [part] current h =
     h[current := (h ! current)\<lparr>TreeNode.Files := TreeNode.Files (h ! current) @ [file]\<rparr>]"
| "insertParts file (part # rest) current h =
     (case map_of (Children (h ! current)) part of
        None \<Rightarrow>
          insertParts file rest (length h)
            (h[current := (h ! current)
                 \<lparr>Children := Children (h ! current) @ [(part, length h)]\<rparr>]
             @ [\<lparr>TreeNode.Name = part, IsDir = True, TreeNode.Files = [], Children = [], Parent = Some current,
                  IsEntireDir = False\<rparr>])
      | Some child \<Rightarrow> insertParts file rest child h)"

definition buildTree :: "FileInfo list \<Rightarrow> heap" where
  "buildTree files =
     fold (\<lambda>file h. insertParts file (splitSep (RelativePath file)) 0 h) files [newRoot]"

subsection \<open>markEntireDirectoriesNew\<close>

text \<open>
  The loop \<open>for current != nil && current.Name != ""\<close> that collects the names on the
  way up the \<open>Parent\<close> links. On a cycle of \<open>Parent\<close> links it does not end.
\<close>

partial_function (option) pathPartsLoop :: "heap \<Rightarrow> addr option \<Rightarrow> string list \<Rightarrow> string list option" where
  "pathPartsLoop h current pathParts =
     (case current of
        None \<Rightarrow> Some pathParts
      | Some c \<Rightarrow>
          if TreeNode.Name (h ! c) = [] then Some pathParts
          else pathPartsLoop h (Parent (h ! c)) (TreeNode.Name (h ! c) # pathParts))"

declare pathPartsLoop.simps [code]

text \<open>
  The loop over \<open>node.Children\<close> that computes \<open>allChildrenAreEntire\<close> and
  \<open>hasChildDirs\<close>, with its \<open>break\<close>.
\<close>

fun childrenLoop :: "heap \<Rightarrow> (string \<times> addr) list \<Rightarrow> bool \<times> bool \<Rightarrow> bool \<times> bool" where
  "childrenLoop h [] (allChildrenAreEntire, hasChildDirs) = (allChildrenAreEntire, hasChildDirs)"
| "childrenLoop h ((name, child) # rest) (allChildrenAreEntire, hasChildDirs) =
     (if IsDir (h ! child)
      then (if \<not> IsEntireDir (h ! child) then (False, True)
            else childrenLoop h rest (allChildrenAreEntire, True))
      else childrenLoop h rest (allChildrenAreEntire, hasChildDirs))"

definition setEntire :: "addr \<Rightarrow> bool \<Rightarrow> heap \<Rightarrow> heap" where
  "setEntire node b h = h[node := (h ! node)\<lparr>IsEntireDir := b\<rparr>]"

text \<open>
  \<open>markEntireDirectoriesNew\<close> processes the children first. The recursion follows
  pointers, so the model bounds its depth by a counter and returns \<open>None\<close> when the
  counter runs out; \<open>buildSmartTree\<close> starts it with the number of nodes, which no
  branch of a tree exceeds.
\<close>

fun markEntireDirectoriesNew ::
  "nat \<Rightarrow> FileSet \<Rightarrow> FileSet \<Rightarrow> (string \<Rightarrow> bool) \<Rightarrow> addr \<Rightarrow> heap \<Rightarrow> heap option"
and markChildren ::
  "nat \<Rightarrow> FileSet \<Rightarrow> FileSet \<Rightarrow> (string \<Rightarrow> bool) \<Rightarrow> (string \<times> addr) list \<Rightarrow> heap \<Rightarrow> heap option"
where
  "markEntireDirectoriesNew 0 sourceSet otherSet directoriesInSourceSet node h = None"
| "markEntireDirectoriesNew (Suc fuel) sourceSet otherSet directoriesInSourceSet node h =
     (if \<not> IsDir (h ! node) then Some h
      else (case markChildren fuel sourceSet otherSet directoriesInSourceSet (Children (h ! node)) h of
        None \<Rightarrow> None
      | Some h1 \<Rightarrow>
          if TreeNode.Name (h1 ! node) = [] then Some (setEntire node False h1)
          else (case pathPartsLoop h1 (Some node) [] of
            None \<Rightarrow> None
          | Some pathParts \<Rightarrow>
              (let dirPath = joinSep pathParts in
               if \<not> directoriesInSourceSet dirPath then Some (setEntire node False h1)
               else
                 (let filesInDir = filter (\<lambda>sourceFile. Dir (RelativePath sourceFile) = dirPath)
                                      (FileSet.Files sourceSet);
                      filesInDirCount = length filesInDir;
                      filesWithoutMatchCount =
                        length (filter (\<lambda>sourceFile. HashMap otherSet (Hash sourceFile) = None)
                                  filesInDir);
                      allDirectFilesUnmatched =
                        (filesInDirCount = 0
                         \<or> (filesInDirCount > 0 \<and> filesInDirCount = filesWithoutMatchCount));
                      (allChildrenAreEntire, hasChildDirs) =
                        childrenLoop h1 (Children (h1 ! node)) (True, False);
                      hasContent = (filesInDirCount > 0 \<or> hasChildDirs)
                  in Some (setEntire node
                             (hasContent \<and> allDirectFilesUnmatched
                              \<and> (\<not> hasChildDirs \<or> allChildrenAreEntire)) h1))))))"
| "markChildren fuel sourceSet otherSet directoriesInSourceSet [] h = Some h"
| "markChildren fuel sourceSet otherSet directoriesInSourceSet ((name, child) # rest) h =
     (case markEntireDirectoriesNew fuel sourceSet otherSet directoriesInSourceSet child h of
        None \<Rightarrow> None
      | Some h1 \<Rightarrow> markChildren fuel sourceSet otherSet directoriesInSourceSet rest h1)"

subsection \<open>removeEmptyDirectories\<close>

text \<open>
  \<open>removeEmptyDirectories\<close> on the heap, as \<open>buildSmartTree\<close> calls it: the verdict
  and the heap in which the empty children have been deleted from the \<open>Children\<close> maps.
\<close>

fun removeEmptyDirectoriesAt :: "nat \<Rightarrow> addr \<Rightarrow> heap \<Rightarrow> (bool \<times> heap) option"
and removeEmptyChildrenAt :: "nat \<Rightarrow> addr \<Rightarrow> (string \<times> addr) list \<Rightarrow> heap \<Rightarrow> heap option"
where
  "removeEmptyDirectoriesAt 0 node h = None"
| "removeEmptyDirectoriesAt (Suc fuel) node h =
     (if \<not> IsDir (h ! node) then Some (True, h)
      else (case removeEmptyChildrenAt fuel node (Children (h ! node)) h of
        None \<Rightarrow> None
      | Some h1 \<Rightarrow> Some (TreeNode.Files (h1 ! node) \<noteq> [] \<or> Children (h1 ! node) \<noteq> [], h1)))"
| "removeEmptyChildrenAt fuel node [] h = Some h"
| "removeEmptyChildrenAt fuel node ((name, child) # rest) h =
     (case removeEmptyDirectoriesAt fuel child h of
        None \<Rightarrow> None
      | Some (keep, h1) \<Rightarrow>
          removeEmptyChildrenAt fuel node rest
            (if keep then h1
             else h1[node := (h1 ! node)
                    \<lparr>Children := filter (\<lambda>(k, c). k \<noteq> name) (Children (h1 ! node))\<rparr>]))"

text \<open>\<open>buildSmartTree\<close> returns the root; its tree is the heap, with the root at 0.\<close>

definition buildSmartTree :: "FileInfo list \<Rightarrow> FileSet \<Rightarrow> FileSet \<Rightarrow> heap option" where
  "buildSmartTree files sourceSet otherSet =
     (case directoriesLoop (FileSet.Files sourceSet) (\<lambda>dir. False) of
        None \<Rightarrow> None
      | Some directoriesInSourceSet \<Rightarrow>
          (let h = buildTree files in
           case markEntireDirectoriesNew (length h) sourceSet otherSet directoriesInSourceSet 0 h of
             None \<Rightarrow> None
           | Some h1 \<Rightarrow>
               (case removeEmptyDirectoriesAt (length h1) 0 h1 of
                  None \<Rightarrow> None
                | Some (keep, h2) \<Rightarrow> Some h2)))"

text \<open>
  \<open>removeEmptyDirectories\<close> reads \<open>IsDir\<close>, \<open>Files\<close> and \<open>Children\<close> only and
  never follows \<open>Parent\<close>. On a tree as a value (a node with the subtrees under its
  keys, for any tree and not only those in a heap that \<open>buildTree\<close> filled) it is the
  function below; it returns the verdict and the pruned tree. The keys of a map are
  distinct, so \<open>delete(node.Children, name)\<close> drops the entry of the child whose verdict
  was to discard it, and no other. The pruner in the heap computes this function on the tree
  of the node it is applied to (lemma \<open>prune_refines\<close>).
\<close>

datatype Tree =
  Tree (treeName: string) (treeIsDir: bool) (treeFiles: "FileInfo list")
       (treeChildren: "(string \<times> Tree) list") (treeIsEntireDir: bool)

fun removeEmptyDirectories :: "Tree \<Rightarrow> bool \<times> Tree" where
  "removeEmptyDirectories (Tree name isDir files children entire) =
     (if \<not> isDir then (True, Tree name isDir files children entire)
      else (let pruned = map (\<lambda>(key, child). (key, removeEmptyDirectories child)) children;
                kept = map (\<lambda>(key, keep, child). (key, child))
                         (filter (\<lambda>(key, keep, child). keep) pruned)
            in (files \<noteq> [] \<or> kept \<noteq> [], Tree name isDir files kept entire)))"

section \<open>Vocabulary of the properties\<close>

text \<open>
  Two catalogs hold the same records in another order: the record lists are permutations of
  each other, the two indexes have the same keys, and under each key the lists are
  permutations of each other.
\<close>

definition permuted :: "FileSet \<Rightarrow> FileSet \<Rightarrow> bool" where
  "permuted S' S \<longleftrightarrow>
     mset (FileSet.Files S') = mset (FileSet.Files S)
     \<and> (\<forall>k. map_option mset (NameMap S' k) = map_option mset (NameMap S k))
     \<and> (\<forall>k. map_option mset (HashMap S' k) = map_option mset (HashMap S k))"

text \<open>
  The two indexes of a catalog derive from its record list: under a name (or a fingerprint)
  the index holds the records of \<open>Files\<close> with that name (or fingerprint), each as often
  as \<open>Files\<close> holds it and in the same order, and it has no other key.
\<close>

definition indexed :: "FileSet \<Rightarrow> bool" where
  "indexed S \<longleftrightarrow>
     (\<forall>n. NameMap S n =
        (if \<exists>f\<in>set (FileSet.Files S). FileInfo.Name f = n
         then Some (filter (\<lambda>f. FileInfo.Name f = n) (FileSet.Files S)) else None))
     \<and> (\<forall>h. HashMap S h =
        (if \<exists>f\<in>set (FileSet.Files S). Hash f = h
         then Some (filter (\<lambda>f. Hash f = h) (FileSet.Files S)) else None))"

text \<open>The records of the tasks whose file could be hashed, in the order of the tasks.\<close>

definition cataloged :: "environment \<Rightarrow> FileTask list \<Rightarrow> FileInfo list" where
  "cataloged env tasks =
     concat (map (\<lambda>task. case hashFile env (Path task) of
                           Inl err \<Rightarrow> [] | Inr hash \<Rightarrow> [newFileInfo task hash]) tasks)"

text \<open>
  The scheduler delivers the result of every job once: whatever the number of jobs, the
  order of arrival is a permutation of their indexes.
\<close>

definition fairArrival :: "environment \<Rightarrow> bool" where
  "fairArrival env \<longleftrightarrow> (\<forall>n. mset (arrival env n) = mset [0..<n])"

text \<open>
  The candidate files of a scan: for every root that exists, in the order of the roots, the
  tasks of the entries that the traversal visits without an error and that are not
  directories, in the order of the visits.
\<close>

definition tasksOf :: "environment \<Rightarrow> string \<Rightarrow> visit list \<Rightarrow> FileTask list" where
  "tasksOf env dir vs =
     concat (map (\<lambda>v. case v of
                    EntryError path err \<Rightarrow> []
                  | Entry path info \<Rightarrow>
                      if InfoIsDir info then []
                      else [\<lparr>Path = path, Info = info, FileTask.RootDir = dir,
                             RelPath = (case filepathRel env dir path of
                                          Inr r \<Rightarrow> r | Inl err \<Rightarrow> path)\<rparr>]) vs)"

definition candidates :: "environment \<Rightarrow> string list \<Rightarrow> FileTask list" where
  "candidates env dirs =
     concat (map (\<lambda>dir. tasksOf env dir (walkVisits env dir))
                 (filter (\<lambda>dir. \<not> isNotExist env dir) dirs))"

text \<open>
  A list cut by the limit, when \<open>have\<close> elements have been taken before: a positive limit
  leaves room for \<open>limit - have\<close> more, any other limit cuts nothing.
\<close>

definition capped :: "int \<Rightarrow> nat \<Rightarrow> 'a list \<Rightarrow> 'a list" where
  "capped limit have xs = (if 0 < limit then take (nat limit - have) xs else xs)"

text \<open>The invariant of the first phase: \<open>taskCount\<close> counts \<open>allTasks\<close> and respects a positive limit.\<close>

definition counted :: "int \<Rightarrow> collecting \<Rightarrow> bool" where
  "counted limit st \<longleftrightarrow>
     taskCount st = int (length (allTasks st)) \<and> (0 < limit \<longrightarrow> taskCount st \<le> limit)"

text \<open>The warnings for the entries that the traversal could not access, and for a whole scan without a limit.\<close>

definition accessWarnings :: "visit list \<Rightarrow> message list" where
  "accessWarnings vs =
     concat (map (\<lambda>v. case v of EntryError path err \<Rightarrow> [WarnAccess path err]
                              | Entry path info \<Rightarrow> []) vs)"

definition scanWarnings :: "environment \<Rightarrow> string list \<Rightarrow> message list" where
  "scanWarnings env dirs =
     concat (map (\<lambda>dir. if isNotExist env dir then [WarnDirMissing dir]
                         else accessWarnings (walkVisits env dir)) dirs)"

definition initialCollecting :: collecting where
  "initialCollecting = \<lparr>allTasks = [], taskCount = 0, printed = []\<rparr>"

text \<open>
  The directory nodes that the pruner can reach below a node: it descends through
  directory nodes only.
\<close>

fun directoriesBelow :: "Tree \<Rightarrow> Tree list" where
  "directoriesBelow (Tree name isDir files children entire) =
     (if \<not> isDir then []
      else concat (map (\<lambda>(key, child). (if treeIsDir child then [child] else []) @ directoriesBelow child)
                    children))"

text \<open>
  The path of a node, read off the heap: the names on the way from the root, for a heap in
  which every parent has a smaller address than its child.
\<close>

function pathOf :: "heap \<Rightarrow> addr \<Rightarrow> string list" where
  "pathOf h a =
     (if a = 0 then []
      else (case Parent (h ! a) of
              None \<Rightarrow> []
            | Some p \<Rightarrow> if p < a then pathOf h p @ [TreeNode.Name (h ! a)] else []))"
  by pat_completeness auto
termination
  by (relation "measure (\<lambda>(h, a). a)") auto

declare pathOf.simps [simp del]

text \<open>
  The shape of the heaps that \<open>buildTree\<close> fills: the root is at 0, has the empty name
  and no parent; every node is a directory; the child under a key has that key as its name
  and the node as its parent, and was allocated after it; every other node has a parent.
\<close>

definition treeInv :: "heap \<Rightarrow> bool" where
  "treeInv h \<longleftrightarrow>
     0 < length h
     \<and> TreeNode.Name (h ! 0) = [] \<and> Parent (h ! 0) = None
     \<and> (\<forall>a<length h. IsDir (h ! a))
     \<and> (\<forall>d<length h. \<forall>(k, c)\<in>set (Children (h ! d)).
            d < c \<and> c < length h \<and> TreeNode.Name (h ! c) = k \<and> Parent (h ! c) = Some d)
     \<and> (\<forall>a<length h. 0 < a \<longrightarrow> (\<exists>p<a. Parent (h ! a) = Some p))"

text \<open>
  Only the root has the empty name, and the relative path of a record attached to a node
  splits into the path of the node and one more part.
\<close>

definition attached :: "heap \<Rightarrow> bool" where
  "attached h \<longleftrightarrow>
     (\<forall>a<length h. 0 < a \<longrightarrow> TreeNode.Name (h ! a) \<noteq> [])
     \<and> (\<forall>a<length h. \<forall>f\<in>set (TreeNode.Files (h ! a)).
            splitSep (RelativePath f) = pathOf h a @ [last (splitSep (RelativePath f))])"

text \<open>
  The second heap has the nodes of the first with their names, parents, kinds and files;
  some entries of \<open>Children\<close> may have been deleted.
\<close>

definition sameShape :: "heap \<Rightarrow> heap \<Rightarrow> bool" where
  "sameShape h h' \<longleftrightarrow>
     length h' = length h
     \<and> (\<forall>a<length h.
           TreeNode.Name (h' ! a) = TreeNode.Name (h ! a)
           \<and> IsDir (h' ! a) = IsDir (h ! a)
           \<and> TreeNode.Files (h' ! a) = TreeNode.Files (h ! a)
           \<and> Parent (h' ! a) = Parent (h ! a)
           \<and> set (Children (h' ! a)) \<subseteq> set (Children (h ! a)))"

text \<open>The two updates of the heap in \<open>insertParts\<close>, named for the proofs.\<close>

definition attachFile :: "FileInfo \<Rightarrow> addr \<Rightarrow> heap \<Rightarrow> heap" where
  "attachFile file current h =
     h[current := (h ! current)\<lparr>TreeNode.Files := TreeNode.Files (h ! current) @ [file]\<rparr>]"

definition addChild :: "string \<Rightarrow> addr \<Rightarrow> heap \<Rightarrow> heap" where
  "addChild part current h =
     h[current := (h ! current)\<lparr>Children := Children (h ! current) @ [(part, length h)]\<rparr>]
     @ [\<lparr>TreeNode.Name = part, IsDir = True, TreeNode.Files = [], Children = [],
         Parent = Some current, IsEntireDir = False\<rparr>]"

text \<open>A node is at or below another when \<open>Children\<close> links lead from that one to it.\<close>

inductive below :: "heap \<Rightarrow> addr \<Rightarrow> addr \<Rightarrow> bool" for h :: heap and a :: addr where
  here: "below h a a"
| child: "below h a d \<Longrightarrow> d < length h \<Longrightarrow> (k, c) \<in> set (Children (h ! d)) \<Longrightarrow> below h a c"

text \<open>
  The tree that hangs from a node of the heap, as a value: the node with, under each key,
  the tree of the child at that address. A child is followed only when it was allocated
  after its parent, which holds in every heap that \<open>buildTree\<close> fills, so that the
  function is total.
\<close>

function treeAt :: "heap \<Rightarrow> addr \<Rightarrow> Tree" where
  "treeAt h a =
     Tree (TreeNode.Name (h ! a)) (IsDir (h ! a)) (TreeNode.Files (h ! a))
       (map (\<lambda>kc. (fst kc, if a < snd kc \<and> snd kc < length h then treeAt h (snd kc)
                             else Tree [] False [] [] False))
          (Children (h ! a)))
       (IsEntireDir (h ! a))"
  by pat_completeness auto

termination
  by (relation "measure (\<lambda>(h, a). length h - a)") auto

declare treeAt.simps [simp del]

text \<open>
  The links of a heap form a forest: the keys of a \<open>Children\<close> map are distinct, no two
  keys lead to the same node, and a child was allocated after its parent and points back to
  it.
\<close>

definition shaped :: "heap \<Rightarrow> bool" where
  "shaped h \<longleftrightarrow>
     (\<forall>d<length h.
        distinct (map fst (Children (h ! d))) \<and> distinct (map snd (Children (h ! d)))
        \<and> (\<forall>(k, c)\<in>set (Children (h ! d)). d < c \<and> c < length h \<and> Parent (h ! c) = Some d))"

text \<open>
  The second heap has the nodes of the first with all their fields, except that entries of
  \<open>Children\<close> may have been deleted, the others keeping their order.
\<close>

definition pruneShape :: "heap \<Rightarrow> heap \<Rightarrow> bool" where
  "pruneShape h h' \<longleftrightarrow>
     length h' = length h
     \<and> (\<forall>a<length h.
           TreeNode.Name (h' ! a) = TreeNode.Name (h ! a)
           \<and> IsDir (h' ! a) = IsDir (h ! a)
           \<and> TreeNode.Files (h' ! a) = TreeNode.Files (h ! a)
           \<and> Parent (h' ! a) = Parent (h ! a)
           \<and> IsEntireDir (h' ! a) = IsEntireDir (h ! a)
           \<and> (\<exists>P. Children (h' ! a) = filter P (Children (h ! a))))"

text \<open>The verdict of the pruner on the tree of a child.\<close>

definition keeps :: "heap \<Rightarrow> string \<times> addr \<Rightarrow> bool" where
  "keeps h = (\<lambda>(k, c). fst (removeEmptyDirectories (treeAt h c)))"

text \<open>The keys of every \<open>Children\<close> map are distinct.\<close>

definition distinctKeys :: "heap \<Rightarrow> bool" where
  "distinctKeys h \<longleftrightarrow> (\<forall>d<length h. distinct (map fst (Children (h ! d))))"

text \<open>Two heaps with the same \<open>Children\<close> and \<open>Parent\<close> links.\<close>

definition sameLinks :: "heap \<Rightarrow> heap \<Rightarrow> bool" where
  "sameLinks h h' \<longleftrightarrow>
     length h' = length h
     \<and> (\<forall>a<length h. Children (h' ! a) = Children (h ! a) \<and> Parent (h' ! a) = Parent (h ! a))"

section \<open>Examples\<close>

text \<open>Example catalogs: scenarios 1 to 3 of the specification.\<close>

definition mkFile :: "string \<Rightarrow> string \<Rightarrow> string \<Rightarrow> FileInfo" where
  "mkFile rel name h =
     \<lparr>RelativePath = rel, AbsolutePath = ''/r/'' @ rel, FileInfo.Name = name, Hash = h,
      Size = 1, FileInfo.RootDir = ''/r''\<rparr>"

definition catalogOld :: FileSet where
  "catalogOld =
     \<lparr>FileSet.Files = [mkFile ''old.txt'' ''old.txt'' ''z'', mkFile ''a.txt'' ''a.txt'' ''orig'',
               mkFile ''sub/a.txt'' ''a.txt'' ''orig2''],
      NameMap = [''old.txt'' \<mapsto> [mkFile ''old.txt'' ''old.txt'' ''z''],
                 ''a.txt'' \<mapsto> [mkFile ''a.txt'' ''a.txt'' ''orig'',
                                 mkFile ''sub/a.txt'' ''a.txt'' ''orig2'']],
      HashMap = [''z'' \<mapsto> [mkFile ''old.txt'' ''old.txt'' ''z''],
                 ''orig'' \<mapsto> [mkFile ''a.txt'' ''a.txt'' ''orig''],
                 ''orig2'' \<mapsto> [mkFile ''sub/a.txt'' ''a.txt'' ''orig2'']]\<rparr>"

definition catalogNew :: FileSet where
  "catalogNew =
     \<lparr>FileSet.Files = [mkFile ''renamed.txt'' ''renamed.txt'' ''z'', mkFile ''a.txt'' ''a.txt'' ''mod'',
               mkFile ''extra.txt'' ''extra.txt'' ''y''],
      NameMap = [''renamed.txt'' \<mapsto> [mkFile ''renamed.txt'' ''renamed.txt'' ''z''],
                 ''a.txt'' \<mapsto> [mkFile ''a.txt'' ''a.txt'' ''mod''],
                 ''extra.txt'' \<mapsto> [mkFile ''extra.txt'' ''extra.txt'' ''y'']],
      HashMap = [''z'' \<mapsto> [mkFile ''renamed.txt'' ''renamed.txt'' ''z''],
                 ''mod'' \<mapsto> [mkFile ''a.txt'' ''a.txt'' ''mod''],
                 ''y'' \<mapsto> [mkFile ''extra.txt'' ''extra.txt'' ''y'']]\<rparr>"

text \<open>The same two catalogs with their records listed, and indexed, in another order.\<close>

definition catalogOldShuffled :: FileSet where
  "catalogOldShuffled =
     \<lparr>FileSet.Files = [mkFile ''sub/a.txt'' ''a.txt'' ''orig2'', mkFile ''old.txt'' ''old.txt'' ''z'',
               mkFile ''a.txt'' ''a.txt'' ''orig''],
      NameMap = [''a.txt'' \<mapsto> [mkFile ''sub/a.txt'' ''a.txt'' ''orig2'',
                                 mkFile ''a.txt'' ''a.txt'' ''orig''],
                 ''old.txt'' \<mapsto> [mkFile ''old.txt'' ''old.txt'' ''z'']],
      HashMap = [''orig2'' \<mapsto> [mkFile ''sub/a.txt'' ''a.txt'' ''orig2''],
                 ''z'' \<mapsto> [mkFile ''old.txt'' ''old.txt'' ''z''],
                 ''orig'' \<mapsto> [mkFile ''a.txt'' ''a.txt'' ''orig'']]\<rparr>"

definition catalogNewShuffled :: FileSet where
  "catalogNewShuffled =
     \<lparr>FileSet.Files = [mkFile ''extra.txt'' ''extra.txt'' ''y'', mkFile ''a.txt'' ''a.txt'' ''mod'',
               mkFile ''renamed.txt'' ''renamed.txt'' ''z''],
      NameMap = [''extra.txt'' \<mapsto> [mkFile ''extra.txt'' ''extra.txt'' ''y''],
                 ''a.txt'' \<mapsto> [mkFile ''a.txt'' ''a.txt'' ''mod''],
                 ''renamed.txt'' \<mapsto> [mkFile ''renamed.txt'' ''renamed.txt'' ''z'']],
      HashMap = [''y'' \<mapsto> [mkFile ''extra.txt'' ''extra.txt'' ''y''],
                 ''mod'' \<mapsto> [mkFile ''a.txt'' ''a.txt'' ''mod''],
                 ''z'' \<mapsto> [mkFile ''renamed.txt'' ''renamed.txt'' ''z'']]\<rparr>"

text \<open>
  A file system with a missing root, an entry that cannot be accessed and a file that
  cannot be hashed; a scheduler that delivers the results of the jobs in reverse order;
  task lists and flat directories of any size.
\<close>

definition fileEntry :: "string \<Rightarrow> string \<Rightarrow> visit" where
  "fileEntry path name = Entry path \<lparr>InfoName = name, InfoSize = 7, InfoIsDir = False\<rparr>"

definition dirEntry :: "string \<Rightarrow> string \<Rightarrow> visit" where
  "dirEntry path name = Entry path \<lparr>InfoName = name, InfoSize = 0, InfoIsDir = True\<rparr>"

definition exampleEnv :: environment where
  "exampleEnv =
     \<lparr>isNotExist = (\<lambda>dir. dir = ''/missing''),
      walkVisits = (\<lambda>dir. if dir = ''/r''
         then [dirEntry ''/r'' ''r'', fileEntry ''/r/a.txt'' ''a.txt'',
               EntryError ''/r/locked'' (OSError ''permission denied''),
               dirEntry ''/r/sub'' ''sub'', fileEntry ''/r/sub/a.txt'' ''a.txt'',
               fileEntry ''/r/sub/b.txt'' ''b.txt'']
         else if dir = ''/s'' then [dirEntry ''/s'' ''s'', fileEntry ''/s/c.txt'' ''c.txt'']
         else []),
      walkFailure = (\<lambda>dir. None),
      filepathRel = (\<lambda>dir path. Inr (drop (Suc (length dir)) path)),
      hashFile = (\<lambda>path. if path = ''/r/sub/b.txt'' then Inl (OSError ''unreadable'')
                         else Inr (''sha-'' @ path)),
      numCPU = 4,
      arrival = (\<lambda>n. rev [0..<n])\<rparr>"

definition manyTasks :: "nat \<Rightarrow> FileTask list" where
  "manyTasks n =
     map (\<lambda>i. \<lparr>Path = ''/r/'' @ replicate i (CHR ''x''),
               Info = \<lparr>InfoName = replicate i (CHR ''x''), InfoSize = 7, InfoIsDir = False\<rparr>,
               FileTask.RootDir = ''/r'', RelPath = replicate i (CHR ''x'')\<rparr>) [0..<n]"

definition flatEnv :: "nat \<Rightarrow> environment" where
  "flatEnv n =
     exampleEnv\<lparr>walkVisits :=
       (\<lambda>dir. dirEntry dir ''root''
          # map (\<lambda>i. fileEntry (dir @ ''/'' @ replicate i (CHR ''x'')) (replicate i (CHR ''x'')))
              [0..<n])\<rparr>"

text \<open>
  A tree with an empty directory, a chain of directories that leads to a file, a chain that
  leads to nothing, and a node that is not a directory.
\<close>

definition exampleTree :: Tree where
  "exampleTree =
     Tree [] True []
       [(''empty'', Tree ''empty'' True [] [] False),
        (''withfiles'', Tree ''withfiles'' True [mkFile ''withfiles/test.txt'' ''test.txt'' ''t''] [] False),
        (''empty1'', Tree ''empty1'' True []
           [(''withfile'', Tree ''withfile'' True [mkFile ''empty1/withfile/file.txt'' ''file.txt'' ''f''] [] False),
            (''hollow'', Tree ''hollow'' True [] [(''inner'', Tree ''inner'' True [] [] False)] False)]
           False),
        (''note'', Tree ''note'' False [] [] False)]
       False"

text \<open>
  A source set in which \<open>dir/a.txt\<close> has no counterpart in the other set and
  \<open>dir/sub/b.txt\<close> has one, under another name and path.
\<close>

definition collapseSource :: FileSet where
  "collapseSource =
     fold addFileInfo
       [mkFile ''dir/a.txt'' ''a.txt'' ''h1'', mkFile ''dir/sub/b.txt'' ''b.txt'' ''h2'']
       emptyFileSet"

definition collapseOther :: FileSet where
  "collapseOther = fold addFileInfo [mkFile ''copy/c.txt'' ''c.txt'' ''h2''] emptyFileSet"

text \<open>A unique-file list with a file at top level and files in nested directories.\<close>

definition exampleFiles :: "FileInfo list" where
  "exampleFiles =
     [mkFile ''dir/a.txt'' ''a.txt'' ''h1'', mkFile ''top.txt'' ''top.txt'' ''h3'',
      mkFile ''dir/sub/b.txt'' ''b.txt'' ''h2'', mkFile ''dir/sub/c.txt'' ''c.txt'' ''h4'']"

section \<open>Lemmas about the differ\<close>

subsection \<open>What the two loops compute\<close>

lemma compareSet2Loop_modified:
  "SameNameDifferentHash (compareSet2Loop set1 fs res) =
     SameNameDifferentHash res @
       filter (\<lambda>f. HashMap set1 (Hash f) = None \<and> NameMap set1 (FileInfo.Name f) \<noteq> None) fs"
  by (induction fs arbitrary: res) (auto split: option.splits)

lemma compareSet2Loop_unique2:
  "UniqueToSet2 (compareSet2Loop set1 fs res) =
     UniqueToSet2 res @
       filter (\<lambda>f. HashMap set1 (Hash f) = None \<and> NameMap set1 (FileInfo.Name f) = None) fs"
  by (induction fs arbitrary: res) (auto split: option.splits)

lemma compareSet2Loop_unique1:
  "UniqueToSet1 (compareSet2Loop set1 fs res) = UniqueToSet1 res"
  by (induction fs arbitrary: res) (auto split: option.splits)

lemma compareSet2Loop_mappings:
  "NameMappings (compareSet2Loop set1 fs res) n =
     (if \<exists>f\<in>set fs. HashMap set1 (Hash f) = None \<and> NameMap set1 (FileInfo.Name f) \<noteq> None \<and> FileInfo.Name f = n
      then NameMap set1 n else NameMappings res n)"
proof (induction fs arbitrary: res)
  case Nil
  show ?case by simp
next
  case (Cons f fs)
  show ?case
  proof (cases "HashMap set1 (Hash f) = None \<and> NameMap set1 (FileInfo.Name f) \<noteq> None")
    case True
    then obtain l where l: "NameMap set1 (FileInfo.Name f) = Some l" by auto
    with True show ?thesis by (auto simp: Cons.IH)
  next
    case False
    then show ?thesis by (auto simp: Cons.IH split: option.splits)
  qed
qed

lemma compareSet1Loop_unique1:
  "UniqueToSet1 (compareSet1Loop set2 fs res) =
     UniqueToSet1 res @
       filter (\<lambda>f. HashMap set2 (Hash f) = None \<and> NameMap set2 (FileInfo.Name f) = None) fs"
  by (induction fs arbitrary: res) auto

lemma compareSet1Loop_others:
  "SameNameDifferentHash (compareSet1Loop set2 fs res) = SameNameDifferentHash res"
  "UniqueToSet2 (compareSet1Loop set2 fs res) = UniqueToSet2 res"
  "NameMappings (compareSet1Loop set2 fs res) = NameMappings res"
  by (induction fs arbitrary: res) auto

lemma compareFileSets_modified:
  "SameNameDifferentHash (compareFileSets A B) =
     filter (\<lambda>f. HashMap A (Hash f) = None \<and> NameMap A (FileInfo.Name f) \<noteq> None) (FileSet.Files B)"
  by (simp add: compareFileSets_def compareSet1Loop_others compareSet2Loop_modified)

lemma compareFileSets_unique2:
  "UniqueToSet2 (compareFileSets A B) =
     filter (\<lambda>f. HashMap A (Hash f) = None \<and> NameMap A (FileInfo.Name f) = None) (FileSet.Files B)"
  by (simp add: compareFileSets_def compareSet1Loop_others compareSet2Loop_unique2)

lemma compareFileSets_unique1:
  "UniqueToSet1 (compareFileSets A B) =
     filter (\<lambda>f. HashMap B (Hash f) = None \<and> NameMap B (FileInfo.Name f) = None) (FileSet.Files A)"
  by (simp add: compareFileSets_def compareSet1Loop_unique1 compareSet2Loop_unique1)

lemma compareFileSets_mappings:
  "NameMappings (compareFileSets A B) n =
     (if \<exists>f\<in>set (FileSet.Files B). HashMap A (Hash f) = None \<and> NameMap A (FileInfo.Name f) \<noteq> None \<and> FileInfo.Name f = n
      then NameMap A n else None)"
  unfolding compareFileSets_def compareSet1Loop_others compareSet2Loop_mappings
  by auto

lemma compareFileSets_example:
  "SameNameDifferentHash (compareFileSets catalogOld catalogNew) = [mkFile ''a.txt'' ''a.txt'' ''mod'']"
  "UniqueToSet2 (compareFileSets catalogOld catalogNew) = [mkFile ''extra.txt'' ''extra.txt'' ''y'']"
  "UniqueToSet1 (compareFileSets catalogOld catalogNew) = []"
  by (simp_all add: compareFileSets_def catalogOld_def catalogNew_def mkFile_def)

lemma permuted_set: "permuted S' S \<Longrightarrow> set (FileSet.Files S') = set (FileSet.Files S)"
  by (auto simp: permuted_def dest: mset_eq_setD)

lemma permuted_NameMap_None:
  assumes "permuted S' S"
  shows "NameMap S' k = None \<longleftrightarrow> NameMap S k = None"
proof -
  from assms have "map_option mset (NameMap S' k) = map_option mset (NameMap S k)"
    by (simp add: permuted_def)
  then show ?thesis by (cases "NameMap S' k"; cases "NameMap S k") simp_all
qed

lemma permuted_HashMap_None:
  assumes "permuted S' S"
  shows "HashMap S' k = None \<longleftrightarrow> HashMap S k = None"
proof -
  from assms have "map_option mset (HashMap S' k) = map_option mset (HashMap S k)"
    by (simp add: permuted_def)
  then show ?thesis by (cases "HashMap S' k"; cases "HashMap S k") simp_all
qed

lemma permuted_NameMap_set:
  assumes "permuted S' S"
  shows "map_option set (NameMap S' k) = map_option set (NameMap S k)"
proof -
  from assms have e: "map_option mset (NameMap S' k) = map_option mset (NameMap S k)"
    by (simp add: permuted_def)
  show ?thesis
  proof (cases "NameMap S' k")
    case None
    with e show ?thesis by simp
  next
    case (Some l')
    with e obtain l where "NameMap S k = Some l" "mset l' = mset l" by (cases "NameMap S k") auto
    with Some show ?thesis by (auto dest: mset_eq_setD)
  qed
qed

section \<open>Lemmas about the scanner\<close>

lemma indexed_empty: "indexed emptyFileSet"
  by (simp add: indexed_def emptyFileSet_def)

lemma indexed_addFileInfo:
  assumes "indexed S"
  shows "indexed (addFileInfo f S)"
proof -
  have n: "NameMap (addFileInfo f S) n =
        (if \<exists>g\<in>set (FileSet.Files (addFileInfo f S)). FileInfo.Name g = n
         then Some (filter (\<lambda>g. FileInfo.Name g = n) (FileSet.Files (addFileInfo f S))) else None)" for n
    using assms by (auto simp: indexed_def addFileInfo_def lookupList_def)
  have h: "HashMap (addFileInfo f S) n =
        (if \<exists>g\<in>set (FileSet.Files (addFileInfo f S)). Hash g = n
         then Some (filter (\<lambda>g. Hash g = n) (FileSet.Files (addFileInfo f S))) else None)" for n
    using assms by (auto simp: indexed_def addFileInfo_def lookupList_def)
  show ?thesis unfolding indexed_def using n h by blast
qed

lemma Files_addFileInfo: "FileSet.Files (addFileInfo f S) = FileSet.Files S @ [f]"
  by (simp add: addFileInfo_def)

lemma indexed_fold_addFileInfo: "indexed S \<Longrightarrow> indexed (fold addFileInfo fs S)"
  by (induction fs arbitrary: S) (simp_all add: indexed_addFileInfo)

lemma Files_fold_addFileInfo: "FileSet.Files (fold addFileInfo fs S) = FileSet.Files S @ fs"
  by (induction fs arbitrary: S) (simp_all add: Files_addFileInfo)

lemma sequentialLoop_indexed:
  "indexed (fst acc) \<Longrightarrow> indexed (fst (sequentialLoop env tasks acc))"
proof (induction tasks arbitrary: acc)
  case Nil
  then show ?case by (cases acc) simp
next
  case (Cons t ts)
  obtain S out where acc: "acc = (S, out)" by (cases acc)
  show ?case
  proof (cases "hashFile env (Path t)")
    case (Inl e)
    with Cons acc show ?thesis by simp
  next
    case (Inr h)
    with Cons acc show ?thesis by (simp add: indexed_addFileInfo)
  qed
qed

lemma sequentialLoop_Files:
  "FileSet.Files (fst (sequentialLoop env tasks acc)) = FileSet.Files (fst acc) @ cataloged env tasks"
proof (induction tasks arbitrary: acc)
  case Nil
  then show ?case by (cases acc) (simp add: cataloged_def)
next
  case (Cons t ts)
  obtain S out where acc: "acc = (S, out)" by (cases acc)
  show ?case
    by (cases "hashFile env (Path t)") (simp_all add: acc Cons.IH cataloged_def Files_addFileInfo)
qed

lemma hashBatch_FileInfos:
  "FileInfos (hashBatch env tasks b) = FileInfos b @ cataloged env tasks"
proof (induction tasks arbitrary: b)
  case Nil
  then show ?case by (simp add: cataloged_def)
next
  case (Cons t ts)
  show ?case
    by (cases "hashFile env (Path t)") (simp_all add: Cons.IH cataloged_def)
qed

lemma hashWorker_FileInfos: "FileInfos (hashWorker env job) = cataloged env job"
  by (simp add: hashWorker_def hashBatch_FileInfos)

lemma collect_indexed:
  "indexed (fst acc) \<Longrightarrow> indexed (fst (fold collectResult rs acc))"
proof (induction rs arbitrary: acc)
  case Nil
  then show ?case by simp
next
  case (Cons r rs)
  obtain S out where acc: "acc = (S, out)" by (cases acc)
  with Cons show ?case by (simp add: indexed_fold_addFileInfo)
qed

lemma collect_Files:
  "FileSet.Files (fst (fold collectResult rs acc)) = FileSet.Files (fst acc) @ concat (map FileInfos rs)"
proof (induction rs arbitrary: acc)
  case Nil
  then show ?case by simp
next
  case (Cons r rs)
  obtain S out where acc: "acc = (S, out)" by (cases acc)
  show ?case by (simp add: acc Cons.IH Files_fold_addFileInfo)
qed

lemma cataloged_append: "cataloged env (xs @ ys) = cataloged env xs @ cataloged env ys"
  by (simp add: cataloged_def)

lemma cataloged_concat: "cataloged env (concat xss) = concat (map (cataloged env) xss)"
  by (induction xss) (simp_all add: cataloged_append, simp add: cataloged_def)

lemma createBatches_concat:
  "0 < bs \<Longrightarrow> concat (createBatches bs i tasks) = drop i tasks"
proof (induction bs i tasks rule: createBatches.induct)
  case (1 batchSize i tasks)
  show ?case
  proof (cases "i < length tasks")
    case True
    define endIndex where
      "endIndex = (if i + batchSize > length tasks then length tasks else i + batchSize)"
    have ih: "concat (createBatches batchSize (i + batchSize) tasks) = drop (i + batchSize) tasks"
      using 1 True by (simp add: endIndex_def)
    have key: "take (endIndex - i) (drop i tasks) @ drop (i + batchSize) tasks = drop i tasks"
    proof (cases "i + batchSize > length tasks")
      case True
      then show ?thesis by (simp add: endIndex_def)
    next
      case False
      then have m: "endIndex - i = batchSize" by (simp add: endIndex_def)
      have "take batchSize (drop i tasks) @ drop batchSize (drop i tasks) = drop i tasks"
        by (rule append_take_drop_id)
      then show ?thesis unfolding m by (simp add: add.commute)
    qed
    have "createBatches batchSize i tasks
            = take (endIndex - i) (drop i tasks) # createBatches batchSize (i + batchSize) tasks"
      using True 1(2) by (subst createBatches.simps) (simp add: endIndex_def Let_def)
    then show ?thesis using ih key by simp
  next
    case False
    then show ?thesis by (subst createBatches.simps) simp
  qed
qed

lemma batchSizeFor_pos: "0 < batchSizeFor len w"
  by (simp add: batchSizeFor_def Let_def minBatchSize_def)

lemma mset_map_nth_perm:
  assumes "mset is = mset [0..<length xs]"
  shows "mset (map (\<lambda>i. xs ! i) is) = mset xs"
proof -
  have "mset (map (\<lambda>i. xs ! i) is) = image_mset (\<lambda>i. xs ! i) (mset is)" by simp
  also have "\<dots> = image_mset (\<lambda>i. xs ! i) (mset [0..<length xs])" using assms by simp
  also have "\<dots> = mset (map (\<lambda>i. xs ! i) [0..<length xs])" by simp
  also have "\<dots> = mset xs" by (simp add: map_nth)
  finally show ?thesis .
qed

lemma mset_concat_perm:
  assumes "mset xss = mset yss"
  shows "mset (concat xss) = mset (concat yss)"
proof -
  have "mset (concat zs) = sum_mset (image_mset mset (mset zs))" for zs :: "'a list list"
    by (induction zs) simp_all
  with assms show ?thesis by simp
qed

lemma parallel_Files_mset:
  assumes "fairArrival env"
  shows "mset (FileSet.Files (fst (processFilesInParallel env tasks out))) = mset (cataloged env tasks)"
proof -
  define jobs where "jobs = createBatches (batchSizeFor (length tasks) (numWorkers (numCPU env))) 0 tasks"
  define results where "results = map (hashWorker env) jobs"
  have len: "length results = length jobs" by (simp add: results_def)
  from assms have "mset (arrival env (length jobs)) = mset [0..<length results]"
    by (simp add: fairArrival_def len)
  then have p: "mset (map (\<lambda>i. results ! i) (arrival env (length jobs))) = mset results"
    by (rule mset_map_nth_perm)
  have "FileSet.Files (fst (processFilesInParallel env tasks out))
          = concat (map FileInfos (map (\<lambda>i. results ! i) (arrival env (length jobs))))"
    by (simp add: processFilesInParallel_def Let_def jobs_def results_def collect_Files emptyFileSet_def)
  then have "mset (FileSet.Files (fst (processFilesInParallel env tasks out)))
          = mset (concat (map FileInfos (map (\<lambda>i. results ! i) (arrival env (length jobs)))))"
    by simp
  also have "\<dots> = mset (concat (map FileInfos results))"
    by (rule mset_concat_perm) (metis mset_map p)
  also have "map FileInfos results = map (cataloged env) jobs"
    by (simp add: results_def hashWorker_FileInfos)
  also have "concat (map (cataloged env) jobs) = cataloged env (concat jobs)"
    by (simp add: cataloged_concat)
  also have "concat jobs = tasks"
    by (simp add: jobs_def createBatches_concat batchSizeFor_pos)
  finally show ?thesis .
qed

lemma sequential_Files:
  "FileSet.Files (fst (processFilesSequentially env tasks out)) = cataloged env tasks"
  by (simp add: processFilesSequentially_def sequentialLoop_Files emptyFileSet_def)

lemma sequential_indexed: "indexed (fst (processFilesSequentially env tasks out))"
  by (simp add: processFilesSequentially_def sequentialLoop_indexed indexed_empty)

lemma parallel_indexed: "indexed (fst (processFilesInParallel env tasks out))"
  by (simp add: processFilesInParallel_def Let_def collect_indexed indexed_empty)
lemma tasksOf_Nil: "tasksOf env dir [] = []"
  by (simp add: tasksOf_def)

lemma tasksOf_Cons:
  "tasksOf env dir (v # vs) = tasksOf env dir [v] @ tasksOf env dir vs"
  by (simp add: tasksOf_def)

lemma Walk_result:
  "fst (Walk (walkFn env limit dir) vs failure st) = None
   \<or> fst (Walk (walkFn env limit dir) vs failure st) = failure"
proof (induction vs arbitrary: st)
  case Nil
  show ?case by simp
next
  case (Cons v vs)
  show ?case
  proof (cases "walkFn env limit dir v st")
    case (Pair r st')
    then show ?thesis using Cons[of st'] by (cases r) simp_all
  qed
qed

lemma Walk_tasks:
  assumes "counted limit st"
  shows "allTasks (snd (Walk (walkFn env limit dir) vs failure st))
           = allTasks st @ capped limit (length (allTasks st)) (tasksOf env dir vs)
         \<and> counted limit (snd (Walk (walkFn env limit dir) vs failure st))"
  using assms
proof (induction vs arbitrary: st)
  case Nil
  then show ?case by (simp add: tasksOf_def capped_def)
next
  case (Cons v vs)
  show ?case
  proof (cases v)
    case (EntryError path err)
    let ?st = "st\<lparr>printed := printed st @ [WarnAccess path err]\<rparr>"
    have c: "counted limit ?st" using Cons.prems by (auto simp: counted_def)
    have t: "tasksOf env dir (v # vs) = tasksOf env dir vs"
      by (simp add: tasksOf_def EntryError)
    show ?thesis using Cons.IH[OF c] unfolding t by (simp add: EntryError)
  next
    case (Entry path info)
    show ?thesis
    proof (cases "InfoIsDir info")
      case True
      have t: "tasksOf env dir (v # vs) = tasksOf env dir vs"
        by (simp add: tasksOf_def Entry True)
      show ?thesis using Cons.IH[OF Cons.prems] unfolding t by (simp add: Entry True)
    next
      case False
      define task where "task = \<lparr>Path = path, Info = info, FileTask.RootDir = dir,
                             RelPath = (case filepathRel env dir path of
                                          Inr r \<Rightarrow> r | Inl err \<Rightarrow> path)\<rparr>"
      have t: "tasksOf env dir (v # vs) = task # tasksOf env dir vs"
        by (simp add: tasksOf_def Entry False task_def)
      show ?thesis
      proof (cases "limit > 0 \<and> taskCount st \<ge> limit")
        case True
        with Cons.prems have "nat limit - length (allTasks st) = 0"
          by (auto simp: counted_def)
        with True Cons.prems show ?thesis
          unfolding t by (simp add: Entry False capped_def)
      next
        case full: False
        let ?st = "st\<lparr>allTasks := allTasks st @ [task], taskCount := taskCount st + 1\<rparr>"
        have c: "counted limit ?st" using Cons.prems full by (auto simp: counted_def)
        have w: "Walk (walkFn env limit dir) (v # vs) failure st
                   = Walk (walkFn env limit dir) vs failure ?st"
          using full False by (auto simp: Entry task_def Let_def)
        have k: "capped limit (length (allTasks st)) (task # tasksOf env dir vs)
                   = task # capped limit (Suc (length (allTasks st))) (tasksOf env dir vs)"
        proof (cases "0 < limit")
          case True
          with full Cons.prems have "length (allTasks st) < nat limit"
            by (auto simp: counted_def)
          then obtain m where m: "nat limit - length (allTasks st) = Suc m"
            by (cases "nat limit - length (allTasks st)") auto
          then have "nat limit - Suc (length (allTasks st)) = m" by simp
          with m True show ?thesis by (simp add: capped_def)
        next
          case False
          then show ?thesis by (simp add: capped_def)
        qed
        show ?thesis using Cons.IH[OF c] unfolding w t k by simp
      qed
    qed
  qed
qed

lemma capped_append:
  "capped limit n (xs @ ys) = capped limit n xs @ capped limit (n + length (capped limit n xs)) ys"
proof (cases "0 < limit")
  case True
  have "nat limit - n - length xs = nat limit - (n + min (length xs) (nat limit - n))"
    by (simp add: min_def)
  with True show ?thesis by (simp add: capped_def)
next
  case False
  then show ?thesis by (simp add: capped_def)
qed

lemma collectTasks_tasks:
  assumes "counted limit st" and "collectTasks env limit dirs st = Inr st'"
  shows "allTasks st' = allTasks st @ capped limit (length (allTasks st)) (candidates env dirs)
         \<and> counted limit st'"
  using assms
proof (induction dirs arbitrary: st)
  case Nil
  then show ?case by (simp add: candidates_def capped_def)
next
  case (Cons dir dirs)
  show ?case
  proof (cases "isNotExist env dir")
    case True
    let ?st = "st\<lparr>printed := printed st @ [WarnDirMissing dir]\<rparr>"
    have c: "counted limit ?st" using Cons.prems by (auto simp: counted_def)
    have r: "collectTasks env limit dirs ?st = Inr st'" using Cons.prems True by simp
    have "candidates env (dir # dirs) = candidates env dirs"
      using True by (simp add: candidates_def)
    with Cons.IH[OF c r] show ?thesis by simp
  next
    case False
    obtain e st1 where w: "Walk (walkFn env limit dir) (walkVisits env dir) (walkFailure env dir) st = (e, st1)"
      by (cases "Walk (walkFn env limit dir) (walkVisits env dir) (walkFailure env dir) st")
    with Cons.prems False have e: "e = None" and r: "collectTasks env limit dirs st1 = Inr st'"
      by (cases e; simp)+
    from Walk_tasks[OF Cons.prems(1), of env dir "walkVisits env dir" "walkFailure env dir"] w
    have t1: "allTasks st1 = allTasks st
                @ capped limit (length (allTasks st)) (tasksOf env dir (walkVisits env dir))"
      and c1: "counted limit st1" by simp_all
    have cd: "candidates env (dir # dirs) = tasksOf env dir (walkVisits env dir) @ candidates env dirs"
      using False by (simp add: candidates_def)
    from Cons.IH[OF c1 r] show ?thesis
      unfolding cd capped_append t1 by simp
  qed
qed

lemma collectTasks_error:
  assumes "collectTasks env limit dirs st = Inl e"
  shows "\<exists>dir\<in>set dirs. \<exists>err. \<not> isNotExist env dir \<and> walkFailure env dir = Some err
            \<and> e = ErrorWalking dir err"
  using assms
proof (induction dirs arbitrary: st)
  case Nil
  then show ?case by simp
next
  case (Cons dir dirs)
  show ?case
  proof (cases "isNotExist env dir")
    case True
    with Cons show ?thesis by auto
  next
    case False
    obtain r st1 where w: "Walk (walkFn env limit dir) (walkVisits env dir) (walkFailure env dir) st = (r, st1)"
      by (cases "Walk (walkFn env limit dir) (walkVisits env dir) (walkFailure env dir) st")
    show ?thesis
    proof (cases r)
      case None
      with Cons.prems False w have "collectTasks env limit dirs st1 = Inl e" by simp
      from Cons.IH[OF this] show ?thesis by auto
    next
      case (Some err)
      with Cons.prems False w have e: "e = ErrorWalking dir err" by simp
      from Walk_result[of env limit dir "walkVisits env dir" "walkFailure env dir" st] w Some
      have "walkFailure env dir = Some err" by auto
      with e False show ?thesis by auto
    qed
  qed
qed

lemma collectTasks_succeeds:
  assumes "\<forall>dir\<in>set dirs. \<not> isNotExist env dir \<longrightarrow> walkFailure env dir = None"
  shows "\<exists>st'. collectTasks env limit dirs st = Inr st'"
proof (cases "collectTasks env limit dirs st")
  case (Inl e)
  from collectTasks_error[OF this] assms show ?thesis by auto
next
  case (Inr st')
  then show ?thesis by blast
qed
lemma counted_initial: "counted limit initialCollecting"
  by (simp add: counted_def initialCollecting_def)

lemma walkFn_printed:
  "set (printed st) \<subseteq> set (printed (snd (walkFn env limit dir v st)))"
  by (cases v) (auto simp: Let_def)

lemma Walk_printed:
  "set (printed st) \<subseteq> set (printed (snd (Walk (walkFn env limit dir) vs failure st)))"
proof (induction vs arbitrary: st)
  case Nil
  show ?case by simp
next
  case (Cons v vs)
  obtain r st1 where w: "walkFn env limit dir v st = (r, st1)"
    by (cases "walkFn env limit dir v st")
  have s: "set (printed st) \<subseteq> set (printed st1)"
    using walkFn_printed[of st env limit dir v] w by simp
  show ?case
  proof (cases r)
    case ReturnNil
    with w s Cons[of st1] show ?thesis by auto
  next
    case SkipAll
    with w s show ?thesis by simp
  qed
qed

lemma Walk_unlimited_printed:
  assumes "limit \<le> 0"
  shows "printed (snd (Walk (walkFn env limit dir) vs failure st)) = printed st @ accessWarnings vs"
proof (induction vs arbitrary: st)
  case Nil
  show ?case by (simp add: accessWarnings_def)
next
  case (Cons v vs)
  show ?case
  proof (cases v)
    case (EntryError path err)
    then show ?thesis by (simp add: Cons accessWarnings_def)
  next
    case (Entry path info)
    with assms show ?thesis by (simp add: Cons accessWarnings_def Let_def)
  qed
qed

lemma collectTasks_printed:
  assumes "collectTasks env limit dirs st = Inr st'"
  shows "set (printed st) \<subseteq> set (printed st')
       \<and> (\<forall>dir\<in>set dirs. isNotExist env dir \<longrightarrow> WarnDirMissing dir \<in> set (printed st'))"
  using assms
proof (induction dirs arbitrary: st)
  case Nil
  then show ?case by simp
next
  case (Cons dir dirs)
  show ?case
  proof (cases "isNotExist env dir")
    case True
    let ?st = "st\<lparr>printed := printed st @ [WarnDirMissing dir]\<rparr>"
    from Cons.prems True have "collectTasks env limit dirs ?st = Inr st'" by simp
    from Cons.IH[OF this] show ?thesis by auto
  next
    case False
    obtain e st1 where w: "Walk (walkFn env limit dir) (walkVisits env dir) (walkFailure env dir) st = (e, st1)"
      by (cases "Walk (walkFn env limit dir) (walkVisits env dir) (walkFailure env dir) st")
    with Cons.prems False have r: "collectTasks env limit dirs st1 = Inr st'"
      by (cases e) simp_all
    have "set (printed st) \<subseteq> set (printed st1)"
      using Walk_printed[of st env limit dir "walkVisits env dir" "walkFailure env dir"] w by simp
    with Cons.IH[OF r] False show ?thesis by auto
  qed
qed

lemma collectTasks_unlimited_printed:
  assumes "limit \<le> 0" and "collectTasks env limit dirs st = Inr st'"
  shows "\<forall>dir\<in>set dirs. \<not> isNotExist env dir \<longrightarrow>
           set (accessWarnings (walkVisits env dir)) \<subseteq> set (printed st')"
  using assms(2)
proof (induction dirs arbitrary: st)
  case Nil
  then show ?case by simp
next
  case (Cons dir dirs)
  show ?case
  proof (cases "isNotExist env dir")
    case True
    let ?st = "st\<lparr>printed := printed st @ [WarnDirMissing dir]\<rparr>"
    from Cons.prems True have "collectTasks env limit dirs ?st = Inr st'" by simp
    from Cons.IH[OF this] True show ?thesis by auto
  next
    case False
    obtain e st1 where w: "Walk (walkFn env limit dir) (walkVisits env dir) (walkFailure env dir) st = (e, st1)"
      by (cases "Walk (walkFn env limit dir) (walkVisits env dir) (walkFailure env dir) st")
    with Cons.prems False have r: "collectTasks env limit dirs st1 = Inr st'"
      by (cases e) simp_all
    have "printed st1 = printed st @ accessWarnings (walkVisits env dir)"
      using Walk_unlimited_printed[OF assms(1), of env dir "walkVisits env dir" "walkFailure env dir" st] w
      by simp
    then have "set (accessWarnings (walkVisits env dir)) \<subseteq> set (printed st1)" by simp
    with collectTasks_printed[OF r] have "set (accessWarnings (walkVisits env dir)) \<subseteq> set (printed st')"
      by blast
    with Cons.IH[OF r] show ?thesis by auto
  qed
qed

lemma accessWarnings_mem:
  "EntryError path err \<in> set vs \<Longrightarrow> WarnAccess path err \<in> set (accessWarnings vs)"
  by (induction vs) (auto simp: accessWarnings_def)

lemma sequentialLoop_printed:
  "set (snd acc) \<subseteq> set (snd (sequentialLoop env tasks acc))
   \<and> (\<forall>task\<in>set tasks. \<forall>err. hashFile env (Path task) = Inl err
          \<longrightarrow> WarnCouldNotHash (Path task) err \<in> set (snd (sequentialLoop env tasks acc)))"
proof (induction tasks arbitrary: acc)
  case Nil
  show ?case by (cases acc) simp
next
  case (Cons t ts)
  obtain S out where acc: "acc = (S, out)" by (cases acc)
  show ?case
  proof (cases "hashFile env (Path t)")
    case (Inl e)
    with Cons[of "(S, out @ [WarnCouldNotHash (Path t) e])"] acc show ?thesis by auto
  next
    case (Inr h)
    with Cons[of "(addFileInfo (newFileInfo t h) S, out)"] acc show ?thesis by auto
  qed
qed

lemma hashBatch_Errors:
  "Errors (hashBatch env tasks b) =
     Errors b @ concat (map (\<lambda>task. case hashFile env (Path task) of
                           Inl err \<Rightarrow> [CouldNotHash (Path task) err] | Inr hash \<Rightarrow> []) tasks)"
proof (induction tasks arbitrary: b)
  case Nil
  then show ?case by simp
next
  case (Cons t ts)
  show ?case by (cases "hashFile env (Path t)") (simp_all add: Cons.IH)
qed

lemma hashWorker_Errors_mem:
  assumes "task \<in> set job" and "hashFile env (Path task) = Inl err"
  shows "CouldNotHash (Path task) err \<in> set (Errors (hashWorker env job))"
  using assms by (auto simp: hashWorker_def hashBatch_Errors intro!: bexI[of _ task])

lemma collect_printed:
  "set (snd (fold collectResult rs acc))
     = set (snd acc) \<union> WarnError ` (\<Union>r\<in>set rs. set (Errors r))"
proof (induction rs arbitrary: acc)
  case Nil
  show ?case by simp
next
  case (Cons r rs)
  obtain S out where acc: "acc = (S, out)" by (cases acc)
  show ?case by (auto simp: acc Cons)
qed

lemma set_map_nth_perm:
  assumes "mset is = mset [0..<length xs]"
  shows "set (map (\<lambda>i. xs ! i) is) = set xs"
  using mset_map_nth_perm[OF assms] by (metis set_mset_mset)

lemma parallel_printed:
  assumes "fairArrival env"
  shows "set out \<subseteq> set (snd (processFilesInParallel env tasks out))
   \<and> (\<forall>task\<in>set tasks. \<forall>err. hashFile env (Path task) = Inl err
          \<longrightarrow> WarnError (CouldNotHash (Path task) err)
                 \<in> set (snd (processFilesInParallel env tasks out)))"
proof -
  define jobs where "jobs = createBatches (batchSizeFor (length tasks) (numWorkers (numCPU env))) 0 tasks"
  define results where "results = map (hashWorker env) jobs"
  have len: "length results = length jobs" by (simp add: results_def)
  from assms have "mset (arrival env (length jobs)) = mset [0..<length results]"
    by (simp add: fairArrival_def len)
  then have p: "set (map (\<lambda>i. results ! i) (arrival env (length jobs))) = set results"
    by (rule set_map_nth_perm)
  have out: "set (snd (processFilesInParallel env tasks out))
          = set out \<union> WarnError ` (\<Union>r\<in>set results. set (Errors r))"
    unfolding processFilesInParallel_def Let_def collect_printed
      jobs_def[symmetric] results_def[symmetric] p by simp
  have cc: "concat jobs = tasks"
    by (simp add: jobs_def createBatches_concat batchSizeFor_pos)
  have "WarnError (CouldNotHash (Path task) err) \<in> set (snd (processFilesInParallel env tasks out))"
    if t: "task \<in> set tasks" and h: "hashFile env (Path task) = Inl err" for task err
  proof -
    from t cc have "task \<in> set (concat jobs)" by simp
    then obtain job where j: "job \<in> set jobs" "task \<in> set job" by auto
    from hashWorker_Errors_mem[OF j(2) h] j(1)
    have "\<exists>r\<in>set results. CouldNotHash (Path task) err \<in> set (Errors r)"
      by (auto simp: results_def)
    then show ?thesis unfolding out by blast
  qed
  with out show ?thesis by blast
qed

lemma cataloged_hash:
  "f \<in> set (cataloged env tasks) \<Longrightarrow> hashFile env (AbsolutePath f) = Inr (Hash f)"
  by (auto simp: cataloged_def newFileInfo_def split: sum.splits)

lemma cataloged_length: "length (cataloged env tasks) \<le> length tasks"
  by (induction tasks) (auto simp: cataloged_def split: sum.splits)

lemma walk_cases:
  "walkDirectoriesWithLimit env dirs limit =
     (case collectTasks env limit dirs initialCollecting of
        Inl err \<Rightarrow> Inl err
      | Inr st \<Rightarrow>
          Inr (if length (allTasks st) < 20
               then processFilesSequentially env (allTasks st) (printed st)
               else processFilesInParallel env (allTasks st) (printed st)))"
  by (simp add: walkDirectoriesWithLimit_def initialCollecting_def minFilesForParallelization_def
      split: sum.splits)

lemma walk_Inr:
  assumes fair: "fairArrival env" and res: "walkDirectoriesWithLimit env dirs limit = Inr (S, out)"
  shows "\<exists>st. collectTasks env limit dirs initialCollecting = Inr st
       \<and> allTasks st = capped limit 0 (candidates env dirs)
       \<and> mset (FileSet.Files S) = mset (cataloged env (allTasks st))
       \<and> indexed S
       \<and> set (printed st) \<subseteq> set out
       \<and> (\<forall>task\<in>set (allTasks st). \<forall>err. hashFile env (Path task) = Inl err \<longrightarrow>
             WarnCouldNotHash (Path task) err \<in> set out
             \<or> WarnError (CouldNotHash (Path task) err) \<in> set out)"
proof (cases "collectTasks env limit dirs initialCollecting")
  case (Inl e)
  with res show ?thesis by (simp add: walk_cases)
next
  case (Inr st)
  from collectTasks_tasks[OF counted_initial Inr]
  have t: "allTasks st = capped limit 0 (candidates env dirs)"
    by (simp add: initialCollecting_def)
  show ?thesis
  proof (cases "length (allTasks st) < 20")
    case True
    with res Inr have r: "(S, out) = processFilesSequentially env (allTasks st) (printed st)"
      by (simp add: walk_cases)
    then have S: "S = fst (processFilesSequentially env (allTasks st) (printed st))"
      and out: "out = snd (processFilesSequentially env (allTasks st) (printed st))"
      by (metis fst_conv, metis snd_conv)
    from sequentialLoop_printed[of "(emptyFileSet, printed st)" env "allTasks st"]
    have "set (printed st) \<subseteq> set out
       \<and> (\<forall>task\<in>set (allTasks st). \<forall>err. hashFile env (Path task) = Inl err \<longrightarrow>
             WarnCouldNotHash (Path task) err \<in> set out)"
      by (simp add: out processFilesSequentially_def)
    with Inr t show ?thesis
      by (simp add: S sequential_Files sequential_indexed)
  next
    case False
    with res Inr have r: "(S, out) = processFilesInParallel env (allTasks st) (printed st)"
      by (simp add: walk_cases)
    then have S: "S = fst (processFilesInParallel env (allTasks st) (printed st))"
      and out: "out = snd (processFilesInParallel env (allTasks st) (printed st))"
      by (metis fst_conv, metis snd_conv)
    from parallel_printed[OF fair, of "printed st" "allTasks st"]
    have "set (printed st) \<subseteq> set out
       \<and> (\<forall>task\<in>set (allTasks st). \<forall>err. hashFile env (Path task) = Inl err \<longrightarrow>
             WarnError (CouldNotHash (Path task) err) \<in> set out)"
      by (simp add: out)
    with Inr t show ?thesis
      by (simp add: S parallel_Files_mset[OF fair] parallel_indexed)
  qed
qed

lemma Walk_unlimited:
  assumes "limit \<le> 0"
  shows "Walk (walkFn env limit dir) vs failure st =
           (failure, st\<lparr>allTasks := allTasks st @ tasksOf env dir vs,
                         taskCount := taskCount st + int (length (tasksOf env dir vs)),
                         printed := printed st @ accessWarnings vs\<rparr>)"
proof (induction vs arbitrary: st)
  case Nil
  show ?case by (simp add: tasksOf_def accessWarnings_def)
next
  case (Cons v vs)
  show ?case
  proof (cases v)
    case (EntryError path err)
    then show ?thesis by (simp add: Cons tasksOf_def accessWarnings_def)
  next
    case (Entry path info)
    with assms show ?thesis by (simp add: Cons tasksOf_def accessWarnings_def Let_def)
  qed
qed

lemma collectTasks_unlimited:
  assumes "limit \<le> 0"
    and "\<forall>dir\<in>set dirs. \<not> isNotExist env dir \<longrightarrow> walkFailure env dir = None"
  shows "collectTasks env limit dirs st =
           Inr (st\<lparr>allTasks := allTasks st @ candidates env dirs,
                    taskCount := taskCount st + int (length (candidates env dirs)),
                    printed := printed st @ scanWarnings env dirs\<rparr>)"
  using assms(2)
proof (induction dirs arbitrary: st)
  case Nil
  show ?case by (simp add: candidates_def scanWarnings_def)
next
  case (Cons dir dirs)
  then have ih: "\<And>st. collectTasks env limit dirs st =
           Inr (st\<lparr>allTasks := allTasks st @ candidates env dirs,
                    taskCount := taskCount st + int (length (candidates env dirs)),
                    printed := printed st @ scanWarnings env dirs\<rparr>)" by simp
  show ?case
  proof (cases "isNotExist env dir")
    case True
    then show ?thesis by (simp add: ih candidates_def scanWarnings_def)
  next
    case False
    with Cons.prems have "walkFailure env dir = None" by simp
    with False show ?thesis
      by (simp add: Walk_unlimited[OF assms(1)] ih candidates_def scanWarnings_def)
  qed
qed
lemma fair_example: "fairArrival exampleEnv"
  by (simp add: fairArrival_def exampleEnv_def)

lemma Walk_count:
  "taskCount (snd (Walk (walkFn env limit dir) vs failure st))
     \<le> taskCount st + int (length (tasksOf env dir vs))"
proof (induction vs arbitrary: st)
  case Nil
  show ?case by simp
next
  case (Cons v vs)
  show ?case
  proof (cases v)
    case (EntryError path err)
    let ?st = "st\<lparr>printed := printed st @ [WarnAccess path err]\<rparr>"
    from Cons[of ?st] EntryError show ?thesis by (simp add: tasksOf_def)
  next
    case (Entry path info)
    show ?thesis
    proof (cases "InfoIsDir info")
      case True
      with Cons[of st] Entry show ?thesis by (simp add: tasksOf_def)
    next
      case False
      show ?thesis
      proof (cases "limit > 0 \<and> taskCount st \<ge> limit")
        case True
        with Entry False show ?thesis by simp
      next
        case stop: False
        let ?task = "\<lparr>Path = path, Info = info, FileTask.RootDir = dir,
                       RelPath = (case filepathRel env dir path of Inr r \<Rightarrow> r | Inl err \<Rightarrow> path)\<rparr>"
        let ?st = "st\<lparr>allTasks := allTasks st @ [?task], taskCount := taskCount st + 1\<rparr>"
        from Cons[of ?st] Entry False stop show ?thesis by (simp add: tasksOf_def Let_def)
      qed
    qed
  qed
qed

lemma Walk_reaches:
  assumes "limit \<le> 0 \<or> tasksOf env dir before = []
           \<or> taskCount st + int (length (tasksOf env dir before)) \<le> limit"
  shows "WarnAccess path err
           \<in> set (printed (snd (Walk (walkFn env limit dir) (before @ EntryError path err # after)
                                  failure st)))"
  using assms
proof (induction before arbitrary: st)
  case Nil
  let ?st = "st\<lparr>printed := printed st @ [WarnAccess path err]\<rparr>"
  have "WarnAccess path err \<in> set (printed ?st)" by simp
  with Walk_printed[of ?st env limit dir after failure] show ?case by auto
next
  case (Cons v vs)
  show ?case
  proof (cases v)
    case (EntryError p e)
    let ?st = "st\<lparr>printed := printed st @ [WarnAccess p e]\<rparr>"
    from Cons.prems EntryError have
      "limit \<le> 0 \<or> tasksOf env dir vs = []
       \<or> taskCount ?st + int (length (tasksOf env dir vs)) \<le> limit"
      by (simp add: tasksOf_def)
    from Cons.IH[OF this] EntryError show ?thesis by simp
  next
    case (Entry p info)
    show ?thesis
    proof (cases "InfoIsDir info")
      case True
      from Cons.prems Entry True have
        "limit \<le> 0 \<or> tasksOf env dir vs = []
         \<or> taskCount st + int (length (tasksOf env dir vs)) \<le> limit"
        by (simp add: tasksOf_def)
      from Cons.IH[OF this] Entry True show ?thesis by simp
    next
      case False
      let ?task = "\<lparr>Path = p, Info = info, FileTask.RootDir = dir,
                     RelPath = (case filepathRel env dir p of Inr r \<Rightarrow> r | Inl err \<Rightarrow> p)\<rparr>"
      let ?st = "st\<lparr>allTasks := allTasks st @ [?task], taskCount := taskCount st + 1\<rparr>"
      have l: "length (tasksOf env dir (v # vs)) = Suc (length (tasksOf env dir vs))"
        by (simp add: tasksOf_def Entry False)
      then have "tasksOf env dir (v # vs) \<noteq> []" by auto
      with Cons.prems l have c:
        "limit \<le> 0 \<or> taskCount st + 1 + int (length (tasksOf env dir vs)) \<le> limit"
        by auto
      then have go: "\<not> (limit > 0 \<and> taskCount st \<ge> limit)" by auto
      from c have "limit \<le> 0 \<or> tasksOf env dir vs = []
         \<or> taskCount ?st + int (length (tasksOf env dir vs)) \<le> limit" by auto
      from Cons.IH[OF this] Entry False go show ?thesis by (auto simp: Let_def)
    qed
  qed
qed

lemma collectTasks_reaches:
  assumes "collectTasks env limit (pre @ dir # post) st = Inr st'"
    and "\<not> isNotExist env dir"
    and "walkVisits env dir = before @ EntryError path err # after"
    and "limit \<le> 0 \<or> tasksOf env dir before = []
         \<or> taskCount st + int (length (candidates env pre)) + int (length (tasksOf env dir before))
              \<le> limit"
  shows "WarnAccess path err \<in> set (printed st')"
  using assms(1,4)
proof (induction pre arbitrary: st)
  case Nil
  obtain e st1 where w: "Walk (walkFn env limit dir) (walkVisits env dir) (walkFailure env dir) st = (e, st1)"
    by (cases "Walk (walkFn env limit dir) (walkVisits env dir) (walkFailure env dir) st")
  with Nil.prems(1) assms(2) have r: "collectTasks env limit post st1 = Inr st'"
    by (cases e) simp_all
  from Nil.prems(2) have "limit \<le> 0 \<or> tasksOf env dir before = []
           \<or> taskCount st + int (length (tasksOf env dir before)) \<le> limit"
    by (simp add: candidates_def)
  from Walk_reaches[OF this, of path err after "walkFailure env dir"] w
  have "WarnAccess path err \<in> set (printed st1)" by (simp add: assms(3))
  with collectTasks_printed[OF r] show ?case by blast
next
  case (Cons d pre)
  show ?case
  proof (cases "isNotExist env d")
    case True
    let ?st = "st\<lparr>printed := printed st @ [WarnDirMissing d]\<rparr>"
    from Cons.prems(1) True have r: "collectTasks env limit (pre @ dir # post) ?st = Inr st'" by simp
    from Cons.prems(2) True have "limit \<le> 0 \<or> tasksOf env dir before = []
         \<or> taskCount ?st + int (length (candidates env pre)) + int (length (tasksOf env dir before))
              \<le> limit"
      by (simp add: candidates_def)
    from Cons.IH[OF r this] show ?thesis .
  next
    case False
    obtain e st1 where w: "Walk (walkFn env limit d) (walkVisits env d) (walkFailure env d) st = (e, st1)"
      by (cases "Walk (walkFn env limit d) (walkVisits env d) (walkFailure env d) st")
    with Cons.prems(1) False have r: "collectTasks env limit (pre @ dir # post) st1 = Inr st'"
      by (cases e) simp_all
    from Walk_count[of env limit d "walkVisits env d" "walkFailure env d" st] w
    have "taskCount st1 \<le> taskCount st + int (length (tasksOf env d (walkVisits env d)))" by simp
    with Cons.prems(2) False have "limit \<le> 0 \<or> tasksOf env dir before = []
         \<or> taskCount st1 + int (length (candidates env pre)) + int (length (tasksOf env dir before))
              \<le> limit"
      by (auto simp: candidates_def)
    from Cons.IH[OF r this] show ?thesis .
  qed
qed

section \<open>Lemmas about pruning\<close>

lemma kept_children:
  "map (\<lambda>(key, keep, child). (key, child))
     (filter (\<lambda>(key, keep, child). keep)
        (map (\<lambda>(key, child). (key, removeEmptyDirectories child)) children))
   = map (\<lambda>(key, child). (key, snd (removeEmptyDirectories child)))
       (filter (\<lambda>(key, child). fst (removeEmptyDirectories child)) children)"
  by (induction children) (auto simp: split_def)

lemma prune_dir:
  "removeEmptyDirectories (Tree name True files children entire) =
     (files \<noteq> []
        \<or> filter (\<lambda>(key, child). fst (removeEmptyDirectories child)) children \<noteq> [],
      Tree name True files
        (map (\<lambda>(key, child). (key, snd (removeEmptyDirectories child)))
           (filter (\<lambda>(key, child). fst (removeEmptyDirectories child)) children))
        entire)"
  by (simp only: removeEmptyDirectories.simps Let_def kept_children) simp

lemma prune_file:
  "removeEmptyDirectories (Tree name False files children entire)
     = (True, Tree name False files children entire)"
  by simp

lemma prune_fst:
  "fst (removeEmptyDirectories t) \<longleftrightarrow>
     \<not> treeIsDir t \<or> treeFiles (snd (removeEmptyDirectories t)) \<noteq> []
     \<or> treeChildren (snd (removeEmptyDirectories t)) \<noteq> []"
  by (cases t; cases "treeIsDir t") (simp_all add: prune_dir prune_file del: removeEmptyDirectories.simps)

lemma prune_isDir: "treeIsDir (snd (removeEmptyDirectories t)) = treeIsDir t"
  by (cases t; cases "treeIsDir t") (simp_all add: prune_dir prune_file del: removeEmptyDirectories.simps)

lemma prune_idem: "removeEmptyDirectories (snd (removeEmptyDirectories t)) = removeEmptyDirectories t"
proof (induction t)
  case (Tree name isDir files children entire)
  show ?case
  proof (cases isDir)
    case False
    then show ?thesis by simp
  next
    case True
    define kept where "kept = map (\<lambda>(key, child). (key, snd (removeEmptyDirectories child)))
           (filter (\<lambda>(key, child). fst (removeEmptyDirectories child)) children)"
    have ih: "removeEmptyDirectories (snd (removeEmptyDirectories child)) = removeEmptyDirectories child"
      if "(key, child) \<in> set children" for key child
      using Tree[of "(key, child)" child] that by simp
    have k: "removeEmptyDirectories c = (True, c)" if "(key, c) \<in> set kept" for key c
    proof -
      from that obtain child where m: "(key, child) \<in> set children"
        and c: "c = snd (removeEmptyDirectories child)" and f: "fst (removeEmptyDirectories child)"
        by (auto simp: kept_def)
      from ih[OF m] have "removeEmptyDirectories c = removeEmptyDirectories child"
        by (simp add: c)
      with f c show ?thesis by (cases "removeEmptyDirectories child") simp
    qed
    have f: "filter (\<lambda>(key, child). fst (removeEmptyDirectories child)) kept = kept"
      using k by (auto simp: filter_id_conv)
    have "map (\<lambda>(key, child). (key, snd (removeEmptyDirectories child))) kept = kept"
      using k by (auto intro!: map_idI)
    with f have "removeEmptyDirectories (Tree name True files kept entire)
                 = (files \<noteq> [] \<or> kept \<noteq> [], Tree name True files kept entire)"
      by (simp add: prune_dir del: removeEmptyDirectories.simps)
    then show ?thesis
      using True by (simp add: prune_dir kept_def del: removeEmptyDirectories.simps)
  qed
qed

lemma prune_below:
  "d \<in> set (directoriesBelow (snd (removeEmptyDirectories t)))
     \<Longrightarrow> treeFiles d \<noteq> [] \<or> treeChildren d \<noteq> []"
proof (induction t arbitrary: d)
  case (Tree name isDir files children entire)
  show ?case
  proof (cases isDir)
    case False
    with Tree.prems show ?thesis by simp
  next
    case True
    from Tree.prems True obtain key child where m: "(key, child) \<in> set children"
      and f: "fst (removeEmptyDirectories child)"
      and d: "(treeIsDir (snd (removeEmptyDirectories child)) \<and> d = snd (removeEmptyDirectories child))
              \<or> d \<in> set (directoriesBelow (snd (removeEmptyDirectories child)))"
      by (auto simp: prune_dir simp del: removeEmptyDirectories.simps split: if_splits)
    from d show ?thesis
    proof
      assume a: "treeIsDir (snd (removeEmptyDirectories child)) \<and> d = snd (removeEmptyDirectories child)"
      with f prune_fst[of child] prune_isDir[of child] show ?thesis by auto
    next
      assume "d \<in> set (directoriesBelow (snd (removeEmptyDirectories child)))"
      from Tree.IH[of "(key, child)" child, OF m _ this] show ?thesis by simp
    qed
  qed
qed

section \<open>Lemmas about the trees in the heap\<close>

lemma splitSep_nonempty: "splitSep s \<noteq> []"
  by (induction s) auto

lemma joinSep_Cons_char: "joinSep ((c # p) # ps) = c # joinSep (p # ps)"
  by (cases ps) simp_all

lemma joinSep_splitSep: "joinSep (splitSep s) = s"
proof (induction s)
  case Nil
  show ?case by simp
next
  case (Cons c cs)
  obtain p ps where sp: "splitSep cs = p # ps"
    using splitSep_nonempty[of cs] by (cases "splitSep cs") auto
  show ?case
  proof (cases "c = CHR ''/''")
    case True
    with Cons sp show ?thesis by simp
  next
    case False
    with Cons sp show ?thesis by (simp add: joinSep_Cons_char)
  qed
qed

lemma pathOf_root: "pathOf h 0 = []"
  by (simp add: pathOf.simps)

lemma pathOf_cong:
  "(\<And>b. b \<le> a \<Longrightarrow> TreeNode.Name (h' ! b) = TreeNode.Name (h ! b) \<and> Parent (h' ! b) = Parent (h ! b))
     \<Longrightarrow> pathOf h' a = pathOf h a"
proof (induction a rule: less_induct)
  case (less a)
  show ?case
  proof (cases "a = 0")
    case True
    then show ?thesis by (simp add: pathOf_root)
  next
    case False
    have e: "TreeNode.Name (h' ! a) = TreeNode.Name (h ! a)" "Parent (h' ! a) = Parent (h ! a)"
      using less.prems[of a] by simp_all
    show ?thesis
    proof (cases "Parent (h ! a)")
      case None
      with e False show ?thesis by (simp add: pathOf.simps[of h a] pathOf.simps[of h' a])
    next
      case (Some p)
      show ?thesis
      proof (cases "p < a")
        case True
        have "pathOf h' p = pathOf h p"
          using less.IH[OF True] less.prems True by simp
        with e False Some True show ?thesis
          by (simp add: pathOf.simps[of h a] pathOf.simps[of h' a])
      next
        case False
        with e \<open>a \<noteq> 0\<close> Some show ?thesis
          by (simp add: pathOf.simps[of h a] pathOf.simps[of h' a])
      qed
    qed
  qed
qed

lemma pathOf_child:
  assumes "treeInv h" and "d < length h" and "(k, c) \<in> set (Children (h ! d))"
  shows "pathOf h c = pathOf h d @ [k]"
proof -
  from assms have "d < c" "TreeNode.Name (h ! c) = k" "Parent (h ! c) = Some d"
    by (auto simp: treeInv_def)
  then show ?thesis by (simp add: pathOf.simps[of h c])
qed

lemma pathPartsLoop_total:
  assumes "treeInv h"
  shows "a < length h \<Longrightarrow> \<exists>parts. pathPartsLoop h (Some a) acc = Some parts"
proof (induction a arbitrary: acc rule: less_induct)
  case (less a)
  show ?case
  proof (cases "TreeNode.Name (h ! a) = []")
    case True
    then show ?thesis by (subst pathPartsLoop.simps) simp
  next
    case False
    with assms less.prems have "0 < a" by (cases "a = 0") (auto simp: treeInv_def)
    with assms less.prems obtain p where p: "p < a" "Parent (h ! a) = Some p"
      by (auto simp: treeInv_def)
    from less.IH[OF p(1), of "TreeNode.Name (h ! a) # acc"] p less.prems
    obtain parts where "pathPartsLoop h (Some p) (TreeNode.Name (h ! a) # acc) = Some parts"
      by auto
    with False p show ?thesis by (subst pathPartsLoop.simps) simp
  qed
qed

lemma pathPartsLoop_pathOf:
  assumes "treeInv h" and "\<forall>a<length h. 0 < a \<longrightarrow> TreeNode.Name (h ! a) \<noteq> []"
  shows "a < length h \<Longrightarrow> pathPartsLoop h (Some a) acc = Some (pathOf h a @ acc)"
proof (induction a arbitrary: acc rule: less_induct)
  case (less a)
  show ?case
  proof (cases "a = 0")
    case True
    with assms(1) show ?thesis
      by (subst pathPartsLoop.simps) (simp add: treeInv_def pathOf_root)
  next
    case False
    with assms less.prems obtain p where p: "p < a" "Parent (h ! a) = Some p"
      and n: "TreeNode.Name (h ! a) \<noteq> []"
      by (auto simp: treeInv_def)
    from less.IH[OF p(1), of "TreeNode.Name (h ! a) # acc"] p less.prems
    have "pathPartsLoop h (Some p) (TreeNode.Name (h ! a) # acc)
            = Some (pathOf h p @ TreeNode.Name (h ! a) # acc)" by simp
    with n p False show ?thesis
      by (subst pathPartsLoop.simps) (simp add: pathOf.simps[of h a])
  qed
qed

lemma nth_update_total: "xs[i := x] ! j = (if i = j \<and> i < length xs then x else xs ! j)"
  by (cases "i < length xs") (auto simp: nth_list_update list_update_beyond)

lemma attachFile_fields:
  "length (attachFile file current h) = length h"
  "a < length h \<Longrightarrow> TreeNode.Name (attachFile file current h ! a) = TreeNode.Name (h ! a)"
  "a < length h \<Longrightarrow> Parent (attachFile file current h ! a) = Parent (h ! a)"
  "a < length h \<Longrightarrow> IsDir (attachFile file current h ! a) = IsDir (h ! a)"
  "a < length h \<Longrightarrow> Children (attachFile file current h ! a) = Children (h ! a)"
  "a < length h \<Longrightarrow> TreeNode.Files (attachFile file current h ! a)
     = (if a = current then TreeNode.Files (h ! a) @ [file] else TreeNode.Files (h ! a))"
  by (auto simp: attachFile_def nth_update_total)

lemma addChild_fields:
  "length (addChild part current h) = Suc (length h)"
  "a < length h \<Longrightarrow> TreeNode.Name (addChild part current h ! a) = TreeNode.Name (h ! a)"
  "a < length h \<Longrightarrow> Parent (addChild part current h ! a) = Parent (h ! a)"
  "a < length h \<Longrightarrow> IsDir (addChild part current h ! a) = IsDir (h ! a)"
  "a < length h \<Longrightarrow> TreeNode.Files (addChild part current h ! a) = TreeNode.Files (h ! a)"
  "a < length h \<Longrightarrow> Children (addChild part current h ! a)
     = (if a = current then Children (h ! a) @ [(part, length h)] else Children (h ! a))"
  "addChild part current h ! length h
     = \<lparr>TreeNode.Name = part, IsDir = True, TreeNode.Files = [], Children = [],
        Parent = Some current, IsEntireDir = False\<rparr>"
  by (auto simp: addChild_def nth_append nth_update_total)

lemma treeInv_attachFile:
  assumes "treeInv h"
  shows "treeInv (attachFile file current h)"
  using assms unfolding treeInv_def
  by (simp add: attachFile_fields) (fastforce simp: attachFile_fields)

lemma treeInv_addChild:
  assumes inv: "treeInv h" and cur: "current < length h"
  shows "treeInv (addChild part current h)"
proof -
  let ?h = "addChild part current h"
  have len: "length ?h = Suc (length h)" by (rule addChild_fields)
  have 0: "0 < length ?h" by (simp add: len)
  from inv have pos: "0 < length h" by (simp add: treeInv_def)
  have 1: "TreeNode.Name (?h ! 0) = [] \<and> Parent (?h ! 0) = None"
    using inv pos by (simp add: addChild_fields treeInv_def)
  have 2: "IsDir (?h ! a)" if "a < length ?h" for a
  proof (cases "a < length h")
    case True
    with inv show ?thesis by (simp add: addChild_fields treeInv_def)
  next
    case False
    with that len have "a = length h" by simp
    then show ?thesis by (simp add: addChild_fields)
  qed
  have 3: "d < c \<and> c < length ?h \<and> TreeNode.Name (?h ! c) = k \<and> Parent (?h ! c) = Some d"
    if d: "d < length ?h" and kc: "(k, c) \<in> set (Children (?h ! d))" for d k c
  proof (cases "d < length h")
    case False
    with d len have "d = length h" by simp
    with kc show ?thesis by (simp add: addChild_fields)
  next
    case True
    show ?thesis
    proof (cases "(k, c) \<in> set (Children (h ! d))")
      case old: True
      with inv True have "d < c" "c < length h" "TreeNode.Name (h ! c) = k" "Parent (h ! c) = Some d"
        by (auto simp: treeInv_def)
      then show ?thesis by (simp add: addChild_fields len)
    next
      case False
      with kc True have "d = current" "k = part" "c = length h"
        by (auto simp: addChild_fields split: if_splits)
      with cur show ?thesis by (simp add: addChild_fields len)
    qed
  qed
  have 4: "\<exists>p<a. Parent (?h ! a) = Some p" if "a < length ?h" "0 < a" for a
  proof (cases "a < length h")
    case True
    with inv that show ?thesis by (simp add: addChild_fields treeInv_def)
  next
    case False
    with that len have "a = length h" by simp
    with cur show ?thesis by (simp add: addChild_fields)
  qed
  from 0 1 2 3 4 show ?thesis unfolding treeInv_def by blast
qed

lemma pathOf_attachFile:
  "a < length h \<Longrightarrow> pathOf (attachFile file current h) a = pathOf h a"
  by (rule pathOf_cong) (simp add: attachFile_fields)

lemma pathOf_addChild:
  "a < length h \<Longrightarrow> pathOf (addChild part current h) a = pathOf h a"
  by (rule pathOf_cong) (simp add: addChild_fields)

lemma pathOf_addChild_new:
  assumes "current < length h"
  shows "pathOf (addChild part current h) (length h) = pathOf h current @ [part]"
  using assms
  by (subst pathOf.simps) (auto simp: addChild_fields pathOf_addChild)

lemma attached_attachFile:
  assumes "attached h" and "current < length h"
    and "splitSep (RelativePath file) = pathOf h current @ [part]"
  shows "attached (attachFile file current h)"
  using assms unfolding attached_def
  by (auto simp: attachFile_fields pathOf_attachFile split: if_splits)

lemma attached_addChild:
  assumes att: "attached h" and cur: "current < length h" and part: "part \<noteq> []"
  shows "attached (addChild part current h)"
proof -
  let ?h = "addChild part current h"
  have len: "length ?h = Suc (length h)" by (rule addChild_fields)
  have 1: "TreeNode.Name (?h ! a) \<noteq> []" if "a < length ?h" "0 < a" for a
  proof (cases "a < length h")
    case True
    with att that show ?thesis by (simp add: addChild_fields attached_def)
  next
    case False
    with that len have "a = length h" by simp
    with part show ?thesis by (simp add: addChild_fields)
  qed
  have 2: "splitSep (RelativePath f) = pathOf ?h a @ [last (splitSep (RelativePath f))]"
    if "a < length ?h" "f \<in> set (TreeNode.Files (?h ! a))" for a f
  proof (cases "a < length h")
    case True
    with att that show ?thesis by (simp add: addChild_fields pathOf_addChild attached_def)
  next
    case False
    with that len have "a = length h" by simp
    with that show ?thesis by (simp add: addChild_fields)
  qed
  from 1 2 show ?thesis unfolding attached_def by blast
qed

lemma insertParts_treeInv:
  "treeInv h \<Longrightarrow> current < length h \<Longrightarrow> treeInv (insertParts f parts current h)"
proof (induction f parts current h rule: insertParts.induct)
  case (1 fi current h)
  then show ?case by simp
next
  case (2 fi part current h)
  then show ?case using treeInv_attachFile[of h fi current] by (simp add: attachFile_def)
next
  case (3 fi part v va current h)
  show ?case
  proof (cases "map_of (Children (h ! current)) part")
    case None
    have "treeInv (addChild part current h)" using 3(3,4) by (rule treeInv_addChild)
    moreover have "length h < length (addChild part current h)" by (simp add: addChild_fields)
    ultimately have "treeInv (insertParts fi (v # va) (length h) (addChild part current h))"
      using 3(1)[OF None] by (simp add: addChild_def)
    with None show ?thesis by (simp add: addChild_def)
  next
    case (Some child)
    then have "(part, child) \<in> set (Children (h ! current))" by (rule map_of_SomeD)
    with 3(3,4) have "child < length h" by (auto simp: treeInv_def)
    with 3(2)[OF Some 3(3)] Some show ?thesis by simp
  qed
qed

lemma insertParts_attached:
  "treeInv h \<Longrightarrow> attached h \<Longrightarrow> current < length h
   \<Longrightarrow> splitSep (RelativePath f) = pathOf h current @ parts \<Longrightarrow> parts \<noteq> []
   \<Longrightarrow> [] \<notin> set (butlast parts)
   \<Longrightarrow> attached (insertParts f parts current h)"
proof (induction f parts current h rule: insertParts.induct)
  case (1 fi current h)
  then show ?case by simp
next
  case (2 fi part current h)
  then show ?case using attached_attachFile[of h current fi part] by (simp add: attachFile_def)
next
  case (3 fi part v va current h)
  from 3(8) have part: "part \<noteq> []" and rest: "[] \<notin> set (butlast (v # va))" by auto
  show ?case
  proof (cases "map_of (Children (h ! current)) part")
    case None
    let ?h = "addChild part current h"
    have a: "treeInv ?h" using 3(3,5) by (rule treeInv_addChild)
    have b: "attached ?h" using 3(4,5) part by (rule attached_addChild)
    have c: "length h < length ?h" by (simp add: addChild_fields)
    have d: "splitSep (RelativePath fi) = pathOf ?h (length h) @ (v # va)"
      using 3(6) by (simp add: pathOf_addChild_new[OF 3(5)])
    from 3(1)[OF None, folded addChild_def, OF a b c d _ rest] None show ?thesis
      by (simp add: addChild_def)
  next
    case (Some child)
    then have m: "(part, child) \<in> set (Children (h ! current))" by (rule map_of_SomeD)
    with 3(3,5) have c: "child < length h" by (auto simp: treeInv_def)
    have d: "splitSep (RelativePath fi) = pathOf h child @ (v # va)"
      using 3(6) pathOf_child[OF 3(3) 3(5) m] by simp
    from 3(2)[OF Some 3(3) 3(4) c d _ rest] Some show ?thesis by simp
  qed
qed

lemma insertParts_length: "length h \<le> length (insertParts f parts current h)"
proof (induction f parts current h rule: insertParts.induct)
  case (3 fi part v va current h)
  show ?case
  proof (cases "map_of (Children (h ! current)) part")
    case None
    with 3(1)[OF None] show ?thesis by simp
  next
    case (Some child)
    with 3(2)[OF Some] show ?thesis by simp
  qed
qed simp_all

lemma treeInv_newRoot: "treeInv [newRoot]"
  by (simp add: treeInv_def newRoot_def)

lemma attached_newRoot: "attached [newRoot]"
  by (simp add: attached_def newRoot_def)

lemma buildLoop_inv:
  assumes "treeInv h"
  shows "treeInv (fold (\<lambda>file h. insertParts file (splitSep (RelativePath file)) 0 h) files h)"
  using assms
proof (induction files arbitrary: h)
  case Nil
  then show ?case by simp
next
  case (Cons f fs)
  from Cons.prems have "0 < length h" by (simp add: treeInv_def)
  with Cons.prems have "treeInv (insertParts f (splitSep (RelativePath f)) 0 h)"
    by (rule insertParts_treeInv)
  from Cons.IH[OF this] show ?case by simp
qed

lemma buildLoop_attached:
  assumes "treeInv h" and "attached h"
    and "\<forall>f\<in>set files. [] \<notin> set (butlast (splitSep (RelativePath f)))"
  shows "attached (fold (\<lambda>file h. insertParts file (splitSep (RelativePath file)) 0 h) files h)"
  using assms
proof (induction files arbitrary: h)
  case Nil
  then show ?case by simp
next
  case (Cons f fs)
  from Cons.prems have pos: "0 < length h" by (simp add: treeInv_def)
  have a: "treeInv (insertParts f (splitSep (RelativePath f)) 0 h)"
    using Cons.prems(1) pos by (rule insertParts_treeInv)
  have b: "attached (insertParts f (splitSep (RelativePath f)) 0 h)"
    using Cons.prems pos
    by (intro insertParts_attached) (simp_all add: pathOf_root splitSep_nonempty)
  from Cons.IH[OF a b] Cons.prems(3) show ?case by simp
qed

lemma buildTree_treeInv: "treeInv (buildTree files)"
  unfolding buildTree_def by (rule buildLoop_inv) (rule treeInv_newRoot)

lemma buildTree_attached:
  "\<forall>f\<in>set files. [] \<notin> set (butlast (splitSep (RelativePath f))) \<Longrightarrow> attached (buildTree files)"
  unfolding buildTree_def by (rule buildLoop_attached) (simp_all add: treeInv_newRoot attached_newRoot)

lemma sameShape_refl: "sameShape h h"
  by (simp add: sameShape_def)

lemma sameShape_trans: "sameShape h h1 \<Longrightarrow> sameShape h1 h2 \<Longrightarrow> sameShape h h2"
  unfolding sameShape_def by (auto; blast)

lemma sameShape_setEntire: "sameShape h (setEntire node b h)"
  by (auto simp: sameShape_def setEntire_def nth_update_total)

lemma sameShape_delete:
  "sameShape h (h[node := (h ! node)\<lparr>Children := filter P (Children (h ! node))\<rparr>])"
  by (auto simp: sameShape_def nth_update_total)

lemma treeInv_sameShape:
  assumes "treeInv h" and "sameShape h h'"
  shows "treeInv h'"
proof -
  from assms(2) have len: "length h' = length h" by (simp add: sameShape_def)
  from assms(2) have f: "\<And>a. a < length h \<Longrightarrow>
           TreeNode.Name (h' ! a) = TreeNode.Name (h ! a)
           \<and> IsDir (h' ! a) = IsDir (h ! a)
           \<and> Parent (h' ! a) = Parent (h ! a)
           \<and> set (Children (h' ! a)) \<subseteq> set (Children (h ! a))"
    by (simp add: sameShape_def)
  from assms(1) have pos: "0 < length h" by (simp add: treeInv_def)
  have 3: "d < c \<and> c < length h' \<and> TreeNode.Name (h' ! c) = k \<and> Parent (h' ! c) = Some d"
    if "d < length h'" "(k, c) \<in> set (Children (h' ! d))" for d k c
  proof -
    from that len f[of d] have "(k, c) \<in> set (Children (h ! d))" "d < length h" by auto
    with assms(1) have "d < c" "c < length h" "TreeNode.Name (h ! c) = k" "Parent (h ! c) = Some d"
      by (auto simp: treeInv_def)
    with f[of c] len show ?thesis by simp
  qed
  from assms(1) pos f[of 0] have 1: "TreeNode.Name (h' ! 0) = [] \<and> Parent (h' ! 0) = None"
    by (simp add: treeInv_def)
  from assms(1) f have 2: "\<forall>a<length h'. IsDir (h' ! a)"
    by (simp add: treeInv_def len)
  from assms(1) f have 4: "\<forall>a<length h'. 0 < a \<longrightarrow> (\<exists>p<a. Parent (h' ! a) = Some p)"
    by (simp add: treeInv_def len)
  from pos len have 0: "0 < length h'" by simp
  from 0 1 2 3 4 show ?thesis unfolding treeInv_def by blast
qed

lemma pathOf_sameShape:
  assumes "sameShape h h'" and "a < length h"
  shows "pathOf h' a = pathOf h a"
  using assms by (intro pathOf_cong) (simp add: sameShape_def)

lemma attached_sameShape:
  assumes "attached h" and "sameShape h h'"
  shows "attached h'"
proof -
  from assms(2) have len: "length h' = length h" by (simp add: sameShape_def)
  from assms(2) have f: "\<And>a. a < length h \<Longrightarrow>
           TreeNode.Name (h' ! a) = TreeNode.Name (h ! a)
           \<and> TreeNode.Files (h' ! a) = TreeNode.Files (h ! a)"
    by (simp add: sameShape_def)
  show ?thesis
    using assms(1) unfolding attached_def len
    by (simp add: f pathOf_sameShape[OF assms(2)])
qed

lemma mark_sameShape:
  "markEntireDirectoriesNew fuel src oth dirs node h = Some h' \<Longrightarrow> sameShape h h'"
  "markChildren fuel src oth dirs cs h = Some h' \<Longrightarrow> sameShape h h'"
proof (induction fuel src oth dirs node h and fuel src oth dirs cs h
    arbitrary: h' and h' rule: markEntireDirectoriesNew_markChildren.induct)
  case (1 sourceSet otherSet directoriesInSourceSet node h)
  then show ?case by simp
next
  case (2 fuel sourceSet otherSet directoriesInSourceSet node h)
  show ?case
  proof (cases "IsDir (h ! node)")
    case False
    with 2(2) show ?thesis by (simp add: sameShape_refl)
  next
    case True
    with 2(2) obtain h1 where
      c: "markChildren fuel sourceSet otherSet directoriesInSourceSet (Children (h ! node)) h = Some h1"
      by (auto split: option.splits)
    from 2(1)[OF _ c] True have s1: "sameShape h h1" by simp
    from 2(2) True c obtain b where "h' = setEntire node b h1"
      by (auto simp: Let_def split: option.splits if_splits prod.splits)
    with s1 sameShape_setEntire[of h1 node b] show ?thesis
      by (auto intro: sameShape_trans)
  qed
next
  case (3 fuel sourceSet otherSet directoriesInSourceSet h)
  then show ?case by (simp add: sameShape_refl)
next
  case (4 fuel sourceSet otherSet directoriesInSourceSet name child rest h)
  from 4(3) obtain h1 where
    a: "markEntireDirectoriesNew fuel sourceSet otherSet directoriesInSourceSet child h = Some h1"
    and b: "markChildren fuel sourceSet otherSet directoriesInSourceSet rest h1 = Some h'"
    by (auto split: option.splits)
  from 4(1)[OF a] 4(2)[OF a b] show ?case by (rule sameShape_trans)
qed

lemma prune_sameShape:
  "removeEmptyDirectoriesAt fuel node h = Some (keep, h') \<Longrightarrow> sameShape h h'"
  "removeEmptyChildrenAt fuel node cs h = Some h' \<Longrightarrow> sameShape h h'"
proof (induction fuel node h and fuel node cs h
    arbitrary: keep h' and h' rule: removeEmptyDirectoriesAt_removeEmptyChildrenAt.induct)
  case (1 node h)
  then show ?case by simp
next
  case (2 fuel node h)
  show ?case
  proof (cases "IsDir (h ! node)")
    case False
    with 2(2) show ?thesis by (simp add: sameShape_refl)
  next
    case True
    with 2(2) have c: "removeEmptyChildrenAt fuel node (Children (h ! node)) h = Some h'"
      by (auto split: option.splits)
    from 2(1)[OF _ c] True show ?thesis by simp
  qed
next
  case (3 fuel node h)
  then show ?case by (simp add: sameShape_refl)
next
  case (4 fuel node name child rest h)
  from 4(3) obtain k h1 where
    a: "removeEmptyDirectoriesAt fuel child h = Some (k, h1)"
    and b: "removeEmptyChildrenAt fuel node rest
              (if k then h1
               else h1[node := (h1 ! node)
                      \<lparr>Children := filter (\<lambda>(key, c). key \<noteq> name) (Children (h1 ! node))\<rparr>]) = Some h'"
    by (auto split: option.splits)
  let ?h2 = "if k then h1
               else h1[node := (h1 ! node)
                      \<lparr>Children := filter (\<lambda>(key, c). key \<noteq> name) (Children (h1 ! node))\<rparr>]"
  have s1: "sameShape h h1" using 4(1)[OF a] .
  have s2: "sameShape h1 ?h2" by (simp add: sameShape_refl sameShape_delete)
  have s3: "sameShape ?h2 h'" using 4(2)[OF a _ b] by simp
  from s1 s2 s3 show ?case by (blast intro: sameShape_trans)
qed

lemma mark_total:
  "treeInv h \<Longrightarrow> node < length h \<Longrightarrow> length h \<le> fuel + node
     \<Longrightarrow> \<exists>h'. markEntireDirectoriesNew fuel src oth dirs node h = Some h'"
  "treeInv h \<Longrightarrow> \<forall>(k, c)\<in>set cs. c < length h \<and> length h \<le> fuel + c
     \<Longrightarrow> \<exists>h'. markChildren fuel src oth dirs cs h = Some h'"
proof (induction fuel src oth dirs node h and fuel src oth dirs cs h
    rule: markEntireDirectoriesNew_markChildren.induct)
  case (1 sourceSet otherSet directoriesInSourceSet node h)
  then show ?case by simp
next
  case (2 fuel sourceSet otherSet directoriesInSourceSet node h)
  have isdir: "IsDir (h ! node)" using 2(2,3) by (simp add: treeInv_def)
  have "\<forall>(k, c)\<in>set (Children (h ! node)). c < length h \<and> length h \<le> fuel + c"
    using 2(2,3,4) by (fastforce simp: treeInv_def)
  with 2(1)[OF _ 2(2)] isdir obtain h1 where
    c: "markChildren fuel sourceSet otherSet directoriesInSourceSet (Children (h ! node)) h = Some h1"
    by auto
  have s: "sameShape h h1" using c by (rule mark_sameShape)
  then have inv1: "treeInv h1" and len1: "length h1 = length h"
    using 2(2) by (auto intro: treeInv_sameShape simp: sameShape_def)
  from pathPartsLoop_total[OF inv1, of node "[]"] 2(3) len1
  obtain parts where p: "pathPartsLoop h1 (Some node) [] = Some parts" by auto
  show ?case
    using isdir c p by (auto simp: Let_def split: prod.splits)
next
  case (3 fuel sourceSet otherSet directoriesInSourceSet h)
  then show ?case by simp
next
  case (4 fuel sourceSet otherSet directoriesInSourceSet name child rest h)
  from 4(4) have ch: "child < length h" "length h \<le> fuel + child"
    and rest: "\<forall>(k, c)\<in>set rest. c < length h \<and> length h \<le> fuel + c" by auto
  from 4(1)[OF 4(3) ch] obtain h1 where
    a: "markEntireDirectoriesNew fuel sourceSet otherSet directoriesInSourceSet child h = Some h1"
    by blast
  have s: "sameShape h h1" using a by (rule mark_sameShape)
  then have inv1: "treeInv h1" and len1: "length h1 = length h"
    using 4(3) by (auto intro: treeInv_sameShape simp: sameShape_def)
  from 4(2)[OF a inv1] rest len1 obtain h' where
    "markChildren fuel sourceSet otherSet directoriesInSourceSet rest h1 = Some h'" by auto
  with a show ?case by simp
qed

lemma prune_total:
  "treeInv h \<Longrightarrow> node < length h \<Longrightarrow> length h \<le> fuel + node
     \<Longrightarrow> \<exists>r. removeEmptyDirectoriesAt fuel node h = Some r"
  "treeInv h \<Longrightarrow> \<forall>(k, c)\<in>set cs. c < length h \<and> length h \<le> fuel + c
     \<Longrightarrow> \<exists>h'. removeEmptyChildrenAt fuel node cs h = Some h'"
proof (induction fuel node h and fuel node cs h
    rule: removeEmptyDirectoriesAt_removeEmptyChildrenAt.induct)
  case (1 node h)
  then show ?case by simp
next
  case (2 fuel node h)
  have isdir: "IsDir (h ! node)" using 2(2,3) by (simp add: treeInv_def)
  have "\<forall>(k, c)\<in>set (Children (h ! node)). c < length h \<and> length h \<le> fuel + c"
    using 2(2,3,4) by (fastforce simp: treeInv_def)
  with 2(1)[OF _ 2(2)] isdir obtain h1 where
    "removeEmptyChildrenAt fuel node (Children (h ! node)) h = Some h1" by auto
  with isdir show ?case by simp
next
  case (3 fuel node h)
  then show ?case by simp
next
  case (4 fuel node name child rest h)
  from 4(4) have ch: "child < length h" "length h \<le> fuel + child"
    and rest: "\<forall>(k, c)\<in>set rest. c < length h \<and> length h \<le> fuel + c" by auto
  from 4(1)[OF 4(3) ch] obtain k h1 where
    a: "removeEmptyDirectoriesAt fuel child h = Some (k, h1)" by auto
  let ?h2 = "if k then h1
               else h1[node := (h1 ! node)
                      \<lparr>Children := filter (\<lambda>(key, c). key \<noteq> name) (Children (h1 ! node))\<rparr>]"
  have "sameShape h h1" using a by (rule prune_sameShape)
  moreover have "sameShape h1 ?h2" by (simp add: sameShape_refl sameShape_delete)
  ultimately have s: "sameShape h ?h2" by (rule sameShape_trans)
  then have inv2: "treeInv ?h2" and len2: "length ?h2 = length h"
    using 4(3) by (auto intro: treeInv_sameShape simp: sameShape_def)
  from 4(2)[OF a _ inv2] rest len2 obtain h' where
    "removeEmptyChildrenAt fuel node rest ?h2 = Some h'" by auto
  with a show ?case by simp
qed

lemma buildSmartTree_result:
  assumes "buildSmartTree files src oth = Some t"
  shows "sameShape (buildTree files) t"
proof -
  from assms obtain dirs h1 keep where
    m: "markEntireDirectoriesNew (length (buildTree files)) src oth dirs 0 (buildTree files) = Some h1"
    and p: "removeEmptyDirectoriesAt (length h1) 0 h1 = Some (keep, t)"
    by (auto simp: buildSmartTree_def Let_def split: option.splits)
  from mark_sameShape(1)[OF m] prune_sameShape(1)[OF p] show ?thesis by (rule sameShape_trans)
qed

lemma buildSmartTree_total:
  assumes "directoriesLoop (FileSet.Files src) (\<lambda>dir. False) = Some dirs"
  shows "\<exists>t. buildSmartTree files src oth = Some t"
proof -
  let ?h = "buildTree files"
  have inv: "treeInv ?h" by (rule buildTree_treeInv)
  then have pos: "0 < length ?h" by (simp add: treeInv_def)
  from mark_total(1)[OF inv pos, of "length ?h" src oth dirs] obtain h1 where
    m: "markEntireDirectoriesNew (length ?h) src oth dirs 0 ?h = Some h1" by auto
  have s: "sameShape ?h h1" using m by (rule mark_sameShape)
  then have inv1: "treeInv h1" and len1: "length h1 = length ?h"
    using inv by (auto intro: treeInv_sameShape simp: sameShape_def)
  from prune_total(1)[OF inv1, of 0 "length h1"] pos len1 obtain keep t where
    "removeEmptyDirectoriesAt (length h1) 0 h1 = Some (keep, t)" by auto
  with assms m show ?thesis by (simp add: buildSmartTree_def Let_def)
qed
lemma joinSep_append:
  "xs \<noteq> [] \<Longrightarrow> ys \<noteq> [] \<Longrightarrow> joinSep (xs @ ys) = joinSep xs @ ''/'' @ joinSep ys"
proof (induction xs rule: joinSep.induct)
  case 1
  then show ?case by simp
next
  case (2 p)
  then show ?case by (cases ys) simp_all
next
  case (3 p q ps)
  then show ?case by simp
qed

lemma below_path:
  assumes "treeInv h" and "a < length h" and "below h a b"
  shows "b < length h \<and> (\<exists>rest. pathOf h b = pathOf h a @ rest)"
  using assms(3)
proof (induction rule: below.induct)
  case here
  with assms(2) show ?case by simp
next
  case (child d k c)
  from assms(1) child(2,3) have "c < length h" by (auto simp: treeInv_def)
  moreover from pathOf_child[OF assms(1) child(2,3)] child(4)
  have "\<exists>rest. pathOf h c = pathOf h a @ rest" by auto
  ultimately show ?case by simp
qed

lemma pathOf_nonroot:
  assumes "treeInv h" and "a < length h" and "a \<noteq> 0"
  shows "pathOf h a \<noteq> []"
proof -
  from assms obtain p where "p < a" "Parent (h ! a) = Some p" by (auto simp: treeInv_def)
  then show ?thesis using assms(3) by (simp add: pathOf.simps[of h a])
qed

lemma tree_properties:
  assumes inv: "treeInv t" and att: "attached t"
  shows "(\<forall>d<length t. \<forall>(k, c)\<in>set (Children (t ! d)).
            c < length t \<and> TreeNode.Name (t ! c) = k \<and> Parent (t ! c) = Some d \<and> IsDir (t ! c)
            \<and> (\<exists>pathParts. pathPartsLoop t (Some d) [] = Some pathParts
                  \<and> pathPartsLoop t (Some c) [] = Some (pathParts @ [k])))
       \<and> (\<forall>a<length t. (TreeNode.Name (t ! a) = []) = (a = 0))
       \<and> (\<forall>a<length t. \<forall>b. below t a b \<longrightarrow> (\<forall>f\<in>set (TreeNode.Files (t ! b)).
            \<exists>pathParts rest. pathPartsLoop t (Some a) [] = Some pathParts
               \<and> rest \<noteq> [] \<and> (b = a \<longrightarrow> length rest = 1)
               \<and> splitSep (RelativePath f) = pathParts @ rest
               \<and> RelativePath f = joinSep (pathParts @ rest)
               \<and> (a \<noteq> 0 \<longrightarrow> RelativePath f = joinSep pathParts @ ''/'' @ joinSep rest)))"
proof -
  from att have names: "\<forall>a<length t. 0 < a \<longrightarrow> TreeNode.Name (t ! a) \<noteq> []"
    by (simp add: attached_def)
  note pp = pathPartsLoop_pathOf[OF inv names, of _ "[]", simplified]
  have 1: "c < length t \<and> TreeNode.Name (t ! c) = k \<and> Parent (t ! c) = Some d \<and> IsDir (t ! c)
            \<and> (\<exists>pathParts. pathPartsLoop t (Some d) [] = Some pathParts
                  \<and> pathPartsLoop t (Some c) [] = Some (pathParts @ [k]))"
    if d: "d < length t" and kc: "(k, c) \<in> set (Children (t ! d))" for d k c
  proof -
    from inv d kc have c: "c < length t" "TreeNode.Name (t ! c) = k" "Parent (t ! c) = Some d"
      by (auto simp: treeInv_def)
    with inv have "IsDir (t ! c)" by (simp add: treeInv_def)
    with c pp[OF d] pp[OF c(1)] pathOf_child[OF inv d kc] show ?thesis by simp
  qed
  have 2: "(TreeNode.Name (t ! a) = []) = (a = 0)" if "a < length t" for a
    using that inv names by (cases "a = 0") (auto simp: treeInv_def)
  have 3: "\<exists>pathParts rest. pathPartsLoop t (Some a) [] = Some pathParts
               \<and> rest \<noteq> [] \<and> (b = a \<longrightarrow> length rest = 1)
               \<and> splitSep (RelativePath f) = pathParts @ rest
               \<and> RelativePath f = joinSep (pathParts @ rest)
               \<and> (a \<noteq> 0 \<longrightarrow> RelativePath f = joinSep pathParts @ ''/'' @ joinSep rest)"
    if a: "a < length t" and b: "below t a b" and f: "f \<in> set (TreeNode.Files (t ! b))" for a b f
  proof -
    from below_path[OF inv a b] obtain mid where bl: "b < length t"
      and mid: "pathOf t b = pathOf t a @ mid" by blast
    from att bl f have s: "splitSep (RelativePath f) = pathOf t b @ [last (splitSep (RelativePath f))]"
      by (simp add: attached_def)
    define rest where "rest = mid @ [last (splitSep (RelativePath f))]"
    have r: "rest \<noteq> []" by (simp add: rest_def)
    have sp: "splitSep (RelativePath f) = pathOf t a @ rest" using s mid by (simp add: rest_def)
    have j: "RelativePath f = joinSep (pathOf t a @ rest)"
      using joinSep_splitSep[of "RelativePath f"] sp by simp
    have one: "length rest = 1" if "b = a"
      using that mid by (simp add: rest_def)
    have str: "RelativePath f = joinSep (pathOf t a) @ ''/'' @ joinSep rest" if "a \<noteq> 0"
      using j joinSep_append[OF pathOf_nonroot[OF inv a that] r] by simp
    show ?thesis
    proof (intro exI conjI)
      show "pathPartsLoop t (Some a) [] = Some (pathOf t a)" by (rule pp[OF a])
      show "rest \<noteq> []" by (rule r)
      show "b = a \<longrightarrow> length rest = 1" using one by simp
      show "splitSep (RelativePath f) = pathOf t a @ rest" by (rule sp)
      show "RelativePath f = joinSep (pathOf t a @ rest)" by (rule j)
      show "a \<noteq> 0 \<longrightarrow> RelativePath f = joinSep (pathOf t a) @ ''/'' @ joinSep rest"
        using str by simp
    qed
  qed
  have c1: "\<forall>d<length t. \<forall>(k, c)\<in>set (Children (t ! d)).
            c < length t \<and> TreeNode.Name (t ! c) = k \<and> Parent (t ! c) = Some d \<and> IsDir (t ! c)
            \<and> (\<exists>pathParts. pathPartsLoop t (Some d) [] = Some pathParts
                  \<and> pathPartsLoop t (Some c) [] = Some (pathParts @ [k]))"
  proof (intro allI impI ballI)
    fix d x assume "d < length t" "x \<in> set (Children (t ! d))"
    then show "case x of (k, c) \<Rightarrow>
            c < length t \<and> TreeNode.Name (t ! c) = k \<and> Parent (t ! c) = Some d \<and> IsDir (t ! c)
            \<and> (\<exists>pathParts. pathPartsLoop t (Some d) [] = Some pathParts
                  \<and> pathPartsLoop t (Some c) [] = Some (pathParts @ [k]))"
      using 1[of d "fst x" "snd x"] by (cases x) simp
  qed
  have c2: "\<forall>a<length t. (TreeNode.Name (t ! a) = []) = (a = 0)"
    using 2 by simp
  have c3: "\<forall>a<length t. \<forall>b. below t a b \<longrightarrow> (\<forall>f\<in>set (TreeNode.Files (t ! b)).
            \<exists>pathParts rest. pathPartsLoop t (Some a) [] = Some pathParts
               \<and> rest \<noteq> [] \<and> (b = a \<longrightarrow> length rest = 1)
               \<and> splitSep (RelativePath f) = pathParts @ rest
               \<and> RelativePath f = joinSep (pathParts @ rest)
               \<and> (a \<noteq> 0 \<longrightarrow> RelativePath f = joinSep pathParts @ ''/'' @ joinSep rest))"
    by (intro allI impI ballI) (rule 3)
  from c1 c2 c3 show ?thesis by (intro conjI)
qed

lemma exampleTree_heap:
  "buildTree exampleFiles =
     [\<lparr>TreeNode.Name = [], IsDir = True, TreeNode.Files = [mkFile ''top.txt'' ''top.txt'' ''h3''],
        Children = [(''dir'', 1)], Parent = None, IsEntireDir = False\<rparr>,
      \<lparr>TreeNode.Name = ''dir'', IsDir = True, TreeNode.Files = [mkFile ''dir/a.txt'' ''a.txt'' ''h1''],
        Children = [(''sub'', 2)], Parent = Some 0, IsEntireDir = False\<rparr>,
      \<lparr>TreeNode.Name = ''sub'', IsDir = True,
        TreeNode.Files = [mkFile ''dir/sub/b.txt'' ''b.txt'' ''h2'', mkFile ''dir/sub/c.txt'' ''c.txt'' ''h4''],
        Children = [], Parent = Some 1, IsEntireDir = False\<rparr>]"
  by code_simp

section \<open>The pruner in the heap and the pruner on values\<close>

text \<open>
  On a heap whose links form a forest, \<open>removeEmptyDirectoriesAt\<close> returns the verdict of
  \<open>removeEmptyDirectories\<close> on the tree of the node, leaves the pruned tree at the node,
  and changes no node outside that tree. The heaps that \<open>buildTree\<close> fills are such
  forests, and \<open>markEntireDirectoriesNew\<close> keeps them so.
\<close>

lemma pruneShape_refl: "pruneShape h h"
proof -
  have "\<exists>P. xs = filter P xs" for xs :: "(string \<times> addr) list"
    by (rule exI[of _ "\<lambda>x. True"]) simp
  then show ?thesis by (simp add: pruneShape_def)
qed

lemma pruneShape_trans:
  assumes "pruneShape h h1" and "pruneShape h1 h2"
  shows "pruneShape h h2"
proof -
  have "\<exists>P. Children (h2 ! a) = filter P (Children (h ! a))" if "a < length h" for a
  proof -
    from assms that obtain P Q where "Children (h1 ! a) = filter P (Children (h ! a))"
      "Children (h2 ! a) = filter Q (Children (h1 ! a))"
      unfolding pruneShape_def by metis
    then have "Children (h2 ! a) = filter (\<lambda>x. P x \<and> Q x) (Children (h ! a))" by simp
    then show ?thesis by blast
  qed
  with assms show ?thesis unfolding pruneShape_def by simp
qed

lemma pruneShape_delete:
  "pruneShape h (h[node := (h ! node)\<lparr>Children := filter P (Children (h ! node))\<rparr>])"
proof -
  have "\<exists>Q. Children (h[node := (h ! node)\<lparr>Children := filter P (Children (h ! node))\<rparr>] ! a)
            = filter Q (Children (h ! a))" if "a < length h" for a
  proof (cases "a = node")
    case True
    with that show ?thesis by (auto simp: nth_update_total)
  next
    case False
    then have "Children (h[node := (h ! node)\<lparr>Children := filter P (Children (h ! node))\<rparr>] ! a)
            = filter (\<lambda>x. True) (Children (h ! a))" by (simp add: nth_update_total)
    then show ?thesis by blast
  qed
  then show ?thesis by (simp add: pruneShape_def nth_update_total)
qed

lemma shaped_pruneShape:
  assumes "shaped h" and "pruneShape h h'"
  shows "shaped h'"
proof -
  from assms(2) have len: "length h' = length h" by (simp add: pruneShape_def)
  have "distinct (map fst (Children (h' ! d))) \<and> distinct (map snd (Children (h' ! d)))
        \<and> (\<forall>(k, c)\<in>set (Children (h' ! d)). d < c \<and> c < length h' \<and> Parent (h' ! c) = Some d)"
    if d: "d < length h'" for d
  proof -
    from assms(2) d len obtain P where P: "Children (h' ! d) = filter P (Children (h ! d))"
      unfolding pruneShape_def by metis
    from assms(1) d len have s: "distinct (map fst (Children (h ! d)))"
      "distinct (map snd (Children (h ! d)))"
      "\<forall>(k, c)\<in>set (Children (h ! d)). d < c \<and> c < length h \<and> Parent (h ! c) = Some d"
      by (simp_all add: shaped_def)
    have par: "Parent (h' ! c) = Parent (h ! c)" if "c < length h" for c
      using assms(2) that by (simp add: pruneShape_def)
    from s show ?thesis unfolding P
      by (auto simp: distinct_map_filter len par)
  qed
  then show ?thesis unfolding shaped_def by blast
qed

lemma below_ge:
  assumes "shaped h" and "below h a x"
  shows "a \<le> x"
  using assms(2)
proof (induction rule: below.induct)
  case here
  show ?case by simp
next
  case (child d k c)
  with assms(1) have "d < c" by (auto simp: shaped_def)
  with child show ?case by simp
qed

lemma below_trans:
  assumes "below h b c" and "below h a b"
  shows "below h a c"
  using assms(1)
proof (induction rule: below.induct)
  case here
  show ?case by (rule assms(2))
next
  case (child d k c)
  then show ?case by (auto intro: below.child)
qed

lemma below_child:
  "d < length h \<Longrightarrow> (k, c) \<in> set (Children (h ! d)) \<Longrightarrow> below h c x \<Longrightarrow> below h d x"
  using below.child[OF below.here, of d h k c] below_trans[of h c x d] by simp

lemma below_parent:
  assumes "shaped h" and "below h a x" and "x \<noteq> a"
  shows "\<exists>p. Parent (h ! x) = Some p \<and> p < x \<and> below h a p"
  using assms(2,3)
proof (induction rule: below.induct)
  case here
  then show ?case by simp
next
  case (child d k c)
  with assms(1) have "Parent (h ! c) = Some d" "d < c" by (auto simp: shaped_def)
  with child(1) show ?case by simp
qed

lemma siblings_disjoint:
  assumes sh: "shaped h" and d: "d < length h"
    and c1: "(k1, c1) \<in> set (Children (h ! d))" and c2: "(k2, c2) \<in> set (Children (h ! d))"
    and ne: "c1 \<noteq> c2"
  shows "below h c1 x \<Longrightarrow> below h c2 x \<Longrightarrow> False"
proof (induction x rule: less_induct)
  case (less x)
  from sh d c1 c2 have p1: "Parent (h ! c1) = Some d" "d < c1"
    and p2: "Parent (h ! c2) = Some d" "d < c2" by (auto simp: shaped_def)
  show ?case
  proof (cases "x = c1")
    case True
    with less.prems(2) ne below_parent[OF sh, of c2 c1] p1 have "below h c2 d" by auto
    from below_ge[OF sh this] p2 show False by simp
  next
    case False
    show False
    proof (cases "x = c2")
      case True
      with less.prems(1) ne below_parent[OF sh, of c1 c2] p2 have "below h c1 d" by auto
      from below_ge[OF sh this] p1 show False by simp
    next
      case x2: False
      from below_parent[OF sh less.prems(1) False] obtain p where
        p: "Parent (h ! x) = Some p" "p < x" "below h c1 p" by blast
      from below_parent[OF sh less.prems(2) x2] p(1) have "below h c2 p" by auto
      from less.IH[OF p(2) p(3) this] show False .
    qed
  qed
qed

lemma treeAt_local:
  "length h' = length h \<Longrightarrow> (\<And>x. below h a x \<Longrightarrow> h' ! x = h ! x)
   \<Longrightarrow> treeAt h' a = treeAt h a"
proof (induction h a rule: treeAt.induct)
  case (1 h a)
  note len = 1(2)
  have same: "h' ! a = h ! a" using 1(3)[OF below.here] .
  have "(if a < snd kc \<and> snd kc < length h' then treeAt h' (snd kc) else Tree [] False [] [] False)
      = (if a < snd kc \<and> snd kc < length h then treeAt h (snd kc) else Tree [] False [] [] False)"
    if kc: "kc \<in> set (Children (h ! a))" for kc
  proof (cases "a < snd kc \<and> snd kc < length h")
    case False
    with len show ?thesis by auto
  next
    case True
    then have a: "a < length h" by simp
    have "treeAt h' (snd kc) = treeAt h (snd kc)"
    proof (rule 1(1)[OF kc True len])
      fix x assume "below h (snd kc) x"
      with below_child[OF a, of "fst kc" "snd kc" x] kc have "below h a x" by simp
      then show "h' ! x = h ! x" by (rule 1(3))
    qed
    with True len show ?thesis by simp
  qed
  then have m: "map (\<lambda>kc. (fst kc, if a < snd kc \<and> snd kc < length h' then treeAt h' (snd kc)
                             else Tree [] False [] [] False)) (Children (h ! a))
      = map (\<lambda>kc. (fst kc, if a < snd kc \<and> snd kc < length h then treeAt h (snd kc)
                             else Tree [] False [] [] False)) (Children (h ! a))"
    by (intro map_cong[OF refl]) (simp only:)
  show ?case
    unfolding treeAt.simps[of h' a] treeAt.simps[of h a] same m ..
qed

lemma shaped_child:
  assumes "shaped h" and "d < length h" and "(k, c) \<in> set (Children (h ! d))"
  shows "d < c" and "c < length h" and "Parent (h ! c) = Some d"
proof -
  from assms(1,2) have "\<forall>(k, c)\<in>set (Children (h ! d)). d < c \<and> c < length h \<and> Parent (h ! c) = Some d"
    by (simp add: shaped_def)
  with assms(3) show "d < c" and "c < length h" and "Parent (h ! c) = Some d" by auto
qed

lemma below_lt:
  assumes "shaped h" and "a < length h" and "below h a x"
  shows "x < length h"
  using assms(3)
proof (induction rule: below.induct)
  case here
  show ?case by (rule assms(2))
next
  case (child d k c)
  with assms(1) show ?case by (auto simp: shaped_def)
qed

lemma below_pruneShape:
  assumes "pruneShape h h'" and "below h' a x"
  shows "below h a x"
  using assms(2)
proof (induction rule: below.induct)
  case here
  show ?case by (rule below.here)
next
  case (child d k c)
  from assms(1) child(2) have d: "d < length h" by (simp add: pruneShape_def)
  with assms(1) obtain P where "Children (h' ! d) = filter P (Children (h ! d))"
    unfolding pruneShape_def by metis
  with child(3) have "(k, c) \<in> set (Children (h ! d))" by simp
  with child(4) d show ?case by (rule below.child)
qed

lemma treeAt_shaped:
  assumes "shaped h" and "a < length h"
  shows "treeAt h a =
     Tree (TreeNode.Name (h ! a)) (IsDir (h ! a)) (TreeNode.Files (h ! a))
       (map (\<lambda>(k, c). (k, treeAt h c)) (Children (h ! a))) (IsEntireDir (h ! a))"
proof -
  have "map (\<lambda>kc. (fst kc, if a < snd kc \<and> snd kc < length h then treeAt h (snd kc)
                             else Tree [] False [] [] False)) (Children (h ! a))
      = map (\<lambda>(k, c). (k, treeAt h c)) (Children (h ! a))"
    using shaped_child(1,2)[OF assms] by (intro map_cong[OF refl]) auto
  then show ?thesis by (subst treeAt.simps) simp
qed

lemma filter_other_keys:
  "name \<notin> fst ` set xs \<Longrightarrow> filter (\<lambda>(k, c). k \<noteq> name) xs = xs"
  by (induction xs) auto

lemma prune_refines:
  "shaped h \<Longrightarrow> node < length h \<Longrightarrow> length h \<le> fuel + node \<Longrightarrow>
     \<exists>h'. removeEmptyDirectoriesAt fuel node h
             = Some (fst (removeEmptyDirectories (treeAt h node)), h')
        \<and> treeAt h' node = snd (removeEmptyDirectories (treeAt h node))
        \<and> pruneShape h h'
        \<and> (\<forall>x<length h. \<not> below h node x \<longrightarrow> h' ! x = h ! x)"
  "shaped h \<Longrightarrow> node < length h \<Longrightarrow> Children (h ! node) = pre @ cs
     \<Longrightarrow> \<forall>(k, c)\<in>set cs. length h \<le> fuel + c \<Longrightarrow>
     \<exists>h'. removeEmptyChildrenAt fuel node cs h = Some h'
        \<and> Children (h' ! node) = pre @ filter (keeps h) cs
        \<and> (\<forall>(k, c)\<in>set cs. treeAt h' c = snd (removeEmptyDirectories (treeAt h c)))
        \<and> pruneShape h h'
        \<and> (\<forall>x<length h. x \<noteq> node \<longrightarrow> (\<forall>(k, c)\<in>set cs. \<not> below h c x) \<longrightarrow> h' ! x = h ! x)"
proof (induction fuel node h and fuel node cs h arbitrary: and pre
    rule: removeEmptyDirectoriesAt_removeEmptyChildrenAt.induct)
  case (1 node h)
  then show ?case by simp
next
  case (2 fuel node h)
  note sh = 2(2) and nd = 2(3)
  show ?case
  proof (cases "IsDir (h ! node)")
    case False
    then have "removeEmptyDirectories (treeAt h node) = (True, treeAt h node)"
      by (subst (1 2) treeAt.simps) simp
    with False show ?thesis by (simp add: pruneShape_refl)
  next
    case True
    let ?cs = "Children (h ! node)"
    have fuel: "\<forall>(k, c)\<in>set ?cs. length h \<le> fuel + c"
      using shaped_child(1)[OF sh nd] 2(4) by fastforce
    from 2(1)[OF _ sh nd _ fuel, of "[]"] True obtain h' where
      run: "removeEmptyChildrenAt fuel node ?cs h = Some h'"
      and kept: "Children (h' ! node) = filter (keeps h) ?cs"
      and sub: "\<forall>(k, c)\<in>set ?cs. treeAt h' c = snd (removeEmptyDirectories (treeAt h c))"
      and ps: "pruneShape h h'"
      and frame: "\<forall>x<length h. x \<noteq> node \<longrightarrow> (\<forall>(k, c)\<in>set ?cs. \<not> below h c x) \<longrightarrow> h' ! x = h ! x"
      by auto
    from ps nd have same: "TreeNode.Name (h' ! node) = TreeNode.Name (h ! node)"
      "IsDir (h' ! node) = IsDir (h ! node)" "TreeNode.Files (h' ! node) = TreeNode.Files (h ! node)"
      "IsEntireDir (h' ! node) = IsEntireDir (h ! node)" and len: "length h' = length h"
      by (simp_all add: pruneShape_def)
    have sh': "shaped h'" using sh ps by (rule shaped_pruneShape)
    have f: "filter (\<lambda>(key, child). fst (removeEmptyDirectories child))
               (map (\<lambda>(k, c). (k, treeAt h c)) ?cs)
             = map (\<lambda>(k, c). (k, treeAt h c)) (filter (keeps h) ?cs)"
      by (simp add: filter_map keeps_def comp_def split_def)
    have m: "map (\<lambda>(k, c). (k, treeAt h' c)) (filter (keeps h) ?cs)
           = map (\<lambda>(key, child). (key, snd (removeEmptyDirectories child)))
               (map (\<lambda>(k, c). (k, treeAt h c)) (filter (keeps h) ?cs))"
      using sub by (auto simp: split_def)
    have verdict: "removeEmptyDirectories (treeAt h node)
        = (TreeNode.Files (h ! node) \<noteq> [] \<or> filter (keeps h) ?cs \<noteq> [], treeAt h' node)"
      unfolding treeAt_shaped[OF sh nd] treeAt_shaped[OF sh' nd[folded len]] same kept
      using True by (simp only: prune_dir f m) simp
    have "\<forall>x<length h. \<not> below h node x \<longrightarrow> h' ! x = h ! x"
    proof (intro allI impI)
      fix x assume x: "x < length h" "\<not> below h node x"
      then have "x \<noteq> node" using below.here[of h node] by auto
      moreover have "\<forall>(k, c)\<in>set ?cs. \<not> below h c x"
        using x(2) below_child[OF nd] by auto
      ultimately show "h' ! x = h ! x" using frame x(1) by simp
    qed
    with run True verdict kept same ps show ?thesis by simp
  qed
next
  case (3 fuel node h)
  then show ?case by (simp add: pruneShape_refl)
next
  case (4 fuel node name child rest h)
  note sh = 4(3) and nd = 4(4) and ch = 4(5)
  from ch have mem: "(name, child) \<in> set (Children (h ! node))" by simp
  note c = shaped_child[OF sh nd mem]
  from 4(6) have fc: "length h \<le> fuel + child"
    and frest: "\<forall>(k, c)\<in>set rest. length h \<le> fuel + c" by auto
  define b where "b = fst (removeEmptyDirectories (treeAt h child))"
  from 4(1)[OF sh c(2) fc] obtain h1 where
    a: "removeEmptyDirectoriesAt fuel child h = Some (b, h1)"
    and t1: "treeAt h1 child = snd (removeEmptyDirectories (treeAt h child))"
    and ps1: "pruneShape h h1"
    and fr1: "\<forall>x<length h. \<not> below h child x \<longrightarrow> h1 ! x = h ! x"
    unfolding b_def by auto
  define h2 where "h2 = (if b then h1
               else h1[node := (h1 ! node)
                      \<lparr>Children := filter (\<lambda>(k, c). k \<noteq> name) (Children (h1 ! node))\<rparr>])"
  have notbelow: "\<not> below h child node" using below_ge[OF sh, of child node] c(1) by auto
  with fr1 nd have n1: "h1 ! node = h ! node" by simp
  have ps12: "pruneShape h1 h2" by (simp add: h2_def pruneShape_refl pruneShape_delete)
  have ps2: "pruneShape h h2" using ps1 ps12 by (rule pruneShape_trans)
  have sh2: "shaped h2" using sh ps2 by (rule shaped_pruneShape)
  have len1: "length h1 = length h" and len2: "length h2 = length h"
    using ps1 ps2 by (simp_all add: pruneShape_def)
  have dist: "distinct (map fst (pre @ (name, child) # rest))"
    and dists: "distinct (map snd (pre @ (name, child) # rest))"
    using sh nd ch unfolding shaped_def by metis+
  from dist have "name \<notin> fst ` set pre" "name \<notin> fst ` set rest" by auto
  then have ch2: "Children (h2 ! node) = (pre @ (if b then [(name, child)] else [])) @ rest"
    using nd len1 by (simp add: h2_def n1 ch filter_other_keys nth_update_total)
  have other: "h2 ! x = h1 ! x" if "x \<noteq> node" for x
    using that by (simp add: h2_def nth_update_total)
  have untouched: "h2 ! x = h ! x" if "(k, c) \<in> set rest" "below h c x" for k c x
  proof -
    from that(1) ch have m: "(k, c) \<in> set (Children (h ! node))" by simp
    note cc = shaped_child[OF sh nd m]
    from dists that(1) have "child \<noteq> c" by force
    with siblings_disjoint[OF sh nd mem m] that(2) have nb: "\<not> below h child x" by blast
    from below_ge[OF sh that(2)] cc(1) have "x \<noteq> node" by simp
    moreover have "x < length h" using below_lt[OF sh cc(2) that(2)] .
    ultimately show ?thesis using fr1 nb by (simp add: other)
  qed
  have t2: "treeAt h2 c = treeAt h c" if "(k, c) \<in> set rest" for k c
    using len2 untouched[OF that] by (rule treeAt_local)
  note ih = 4(2)[OF a refl, folded h2_def]
  have "\<forall>(k, c)\<in>set rest. length h2 \<le> fuel + c" using frest by (simp add: len2)
  from ih[OF sh2 nd[folded len2] ch2 this]
  obtain h' where
    run: "removeEmptyChildrenAt fuel node rest h2 = Some h'"
    and kept: "Children (h' ! node) = (pre @ (if b then [(name, child)] else [])) @ filter (keeps h2) rest"
    and sub: "\<forall>(k, c)\<in>set rest. treeAt h' c = snd (removeEmptyDirectories (treeAt h2 c))"
    and ps: "pruneShape h2 h'"
    and frame: "\<forall>x<length h2. x \<noteq> node \<longrightarrow> (\<forall>(k, c)\<in>set rest. \<not> below h2 c x) \<longrightarrow> h' ! x = h2 ! x"
    by blast
  have len': "length h' = length h" using ps len2 by (simp add: pruneShape_def)
  have k2: "filter (keeps h2) rest = filter (keeps h) rest"
    using t2 by (intro filter_cong[OF refl]) (auto simp: keeps_def)
  have r1: "removeEmptyChildrenAt fuel node ((name, child) # rest) h = Some h'"
    using a run by (simp add: h2_def)
  have r2: "Children (h' ! node) = pre @ filter (keeps h) ((name, child) # rest)"
    unfolding kept k2 by (simp add: keeps_def b_def)
  have tc: "treeAt h' child = treeAt h1 child"
  proof (rule treeAt_local)
    show "length h' = length h1" by (simp add: len' len1)
    fix x assume "below h1 child x"
    then have bx: "below h child x" using ps1 by (rule below_pruneShape[rotated])
    have xl: "x < length h" using below_lt[OF sh c(2) bx] .
    have xn: "x \<noteq> node" using below_ge[OF sh bx] c(1) by simp
    have "\<not> below h2 k x" if "(kk, k) \<in> set rest" for kk k
    proof
      assume "below h2 k x"
      then have bk: "below h k x" using ps2 by (rule below_pruneShape[rotated])
      from that ch have m: "(kk, k) \<in> set (Children (h ! node))" by simp
      from dists that have "child \<noteq> k" by force
      with siblings_disjoint[OF sh nd mem m] bx bk show False by blast
    qed
    with frame xl xn len2 have "h' ! x = h2 ! x" by auto
    with other[OF xn] show "h' ! x = h1 ! x" by simp
  qed
  have r3: "\<forall>(k, c)\<in>set ((name, child) # rest). treeAt h' c = snd (removeEmptyDirectories (treeAt h c))"
    using sub t2 tc t1 by auto
  have r4: "pruneShape h h'" using ps2 ps by (rule pruneShape_trans)
  have r5: "\<forall>x<length h. x \<noteq> node \<longrightarrow> (\<forall>(k, c)\<in>set ((name, child) # rest). \<not> below h c x)
              \<longrightarrow> h' ! x = h ! x"
  proof (intro allI impI)
    fix x assume x: "x < length h" "x \<noteq> node" "\<forall>(k, c)\<in>set ((name, child) # rest). \<not> below h c x"
    then have "h1 ! x = h ! x" using fr1 by simp
    moreover have "\<forall>(k, c)\<in>set rest. \<not> below h2 c x"
      using x(3) below_pruneShape[OF ps2] by auto
    then have "h' ! x = h2 ! x" using frame x(1,2) len2 by simp
    ultimately show "h' ! x = h ! x" using other[OF x(2)] by simp
  qed
  from r1 r2 r3 r4 r5 show ?case by blast
qed

lemma distinctKeys_attachFile:
  "distinctKeys h \<Longrightarrow> distinctKeys (attachFile file current h)"
  by (simp add: distinctKeys_def attachFile_fields)

lemma distinctKeys_addChild:
  assumes "distinctKeys h" and "map_of (Children (h ! current)) part = None"
  shows "distinctKeys (addChild part current h)"
proof -
  let ?h = "addChild part current h"
  have "distinct (map fst (Children (?h ! d)))" if "d < length ?h" for d
  proof (cases "d < length h")
    case True
    from assms(2) have "part \<notin> fst ` set (Children (h ! current))"
      by (simp add: map_of_eq_None_iff)
    with assms(1) True show ?thesis by (simp add: addChild_fields distinctKeys_def)
  next
    case False
    with that have "d = length h" by (simp add: addChild_fields)
    then show ?thesis by (simp add: addChild_fields)
  qed
  then show ?thesis by (simp add: distinctKeys_def)
qed

lemma insertParts_distinctKeys:
  "distinctKeys h \<Longrightarrow> distinctKeys (insertParts f parts current h)"
proof (induction f parts current h rule: insertParts.induct)
  case (1 fi current h)
  then show ?case by simp
next
  case (2 fi part current h)
  then show ?case using distinctKeys_attachFile[of h fi current] by (simp add: attachFile_def)
next
  case (3 fi part v va current h)
  show ?case
  proof (cases "map_of (Children (h ! current)) part")
    case None
    have "distinctKeys (addChild part current h)" using 3(3) None by (rule distinctKeys_addChild)
    then have "distinctKeys (insertParts fi (v # va) (length h) (addChild part current h))"
      using 3(1)[OF None] by (simp add: addChild_def)
    with None show ?thesis by (simp add: addChild_def)
  next
    case (Some child)
    with 3(2)[OF Some 3(3)] show ?thesis by simp
  qed
qed

lemma buildLoop_distinctKeys:
  "distinctKeys h \<Longrightarrow>
     distinctKeys (fold (\<lambda>file h. insertParts file (splitSep (RelativePath file)) 0 h) files h)"
  by (induction files arbitrary: h) (simp_all add: insertParts_distinctKeys)

lemma buildTree_distinctKeys: "distinctKeys (buildTree files)"
  unfolding buildTree_def by (rule buildLoop_distinctKeys) (simp add: distinctKeys_def newRoot_def)

lemma distinct_addresses:
  assumes "distinct (map fst xs)" and "\<forall>(k, c)\<in>set xs. f c = k"
  shows "distinct (map snd xs)"
proof -
  from assms(2) have "map fst xs = map f (map snd xs)" by (auto simp: split_def)
  with assms(1) show ?thesis by (simp add: distinct_map del: map_map)
qed

lemma treeInv_shaped:
  assumes "treeInv h" and "distinctKeys h"
  shows "shaped h"
proof -
  have "distinct (map fst (Children (h ! d))) \<and> distinct (map snd (Children (h ! d)))
        \<and> (\<forall>(k, c)\<in>set (Children (h ! d)). d < c \<and> c < length h \<and> Parent (h ! c) = Some d)"
    if d: "d < length h" for d
  proof -
    from assms(1) d have c: "\<forall>(k, c)\<in>set (Children (h ! d)).
        d < c \<and> c < length h \<and> TreeNode.Name (h ! c) = k \<and> Parent (h ! c) = Some d"
      by (simp add: treeInv_def)
    from assms(2) d have k: "distinct (map fst (Children (h ! d)))" by (simp add: distinctKeys_def)
    have "distinct (map snd (Children (h ! d)))"
      using k c by (intro distinct_addresses[where f = "\<lambda>c. TreeNode.Name (h ! c)"]) auto
    with k c show ?thesis by auto
  qed
  then show ?thesis unfolding shaped_def by blast
qed

lemma buildTree_shaped: "shaped (buildTree files)"
  using buildTree_treeInv buildTree_distinctKeys by (rule treeInv_shaped)

lemma sameLinks_refl: "sameLinks h h"
  by (simp add: sameLinks_def)

lemma sameLinks_trans: "sameLinks h h1 \<Longrightarrow> sameLinks h1 h2 \<Longrightarrow> sameLinks h h2"
  by (simp add: sameLinks_def)

lemma sameLinks_setEntire: "sameLinks h (setEntire node b h)"
  by (simp add: sameLinks_def setEntire_def nth_update_total)

lemma shaped_sameLinks:
  assumes "shaped h" and "sameLinks h h'"
  shows "shaped h'"
proof -
  from assms(2) have len: "length h' = length h"
    and c: "\<And>a. a < length h \<Longrightarrow> Children (h' ! a) = Children (h ! a)"
    and p: "\<And>a. a < length h \<Longrightarrow> Parent (h' ! a) = Parent (h ! a)"
    by (simp_all add: sameLinks_def)
  have "distinct (map fst (Children (h' ! d))) \<and> distinct (map snd (Children (h' ! d)))
        \<and> (\<forall>(k, c)\<in>set (Children (h' ! d)). d < c \<and> c < length h' \<and> Parent (h' ! c) = Some d)"
    if d: "d < length h'" for d
  proof -
    from d len have d': "d < length h" by simp
    from assms(1) d' have s: "distinct (map fst (Children (h ! d)))"
      "distinct (map snd (Children (h ! d)))"
      "\<forall>(k, c)\<in>set (Children (h ! d)). d < c \<and> c < length h \<and> Parent (h ! c) = Some d"
      by (simp_all add: shaped_def)
    from s show ?thesis unfolding c[OF d'] len by (auto simp: p)
  qed
  then show ?thesis unfolding shaped_def by blast
qed

lemma mark_sameLinks:
  "markEntireDirectoriesNew fuel src oth dirs node h = Some h' \<Longrightarrow> sameLinks h h'"
  "markChildren fuel src oth dirs cs h = Some h' \<Longrightarrow> sameLinks h h'"
proof (induction fuel src oth dirs node h and fuel src oth dirs cs h
    arbitrary: h' and h' rule: markEntireDirectoriesNew_markChildren.induct)
  case (1 sourceSet otherSet directoriesInSourceSet node h)
  then show ?case by simp
next
  case (2 fuel sourceSet otherSet directoriesInSourceSet node h)
  show ?case
  proof (cases "IsDir (h ! node)")
    case False
    with 2(2) show ?thesis by (simp add: sameLinks_refl)
  next
    case True
    with 2(2) obtain h1 where
      c: "markChildren fuel sourceSet otherSet directoriesInSourceSet (Children (h ! node)) h = Some h1"
      by (auto split: option.splits)
    from 2(1)[OF _ c] True have s1: "sameLinks h h1" by simp
    from 2(2) True c obtain b where "h' = setEntire node b h1"
      by (auto simp: Let_def split: option.splits if_splits prod.splits)
    with s1 sameLinks_setEntire[of h1 node b] show ?thesis
      by (auto intro: sameLinks_trans)
  qed
next
  case (3 fuel sourceSet otherSet directoriesInSourceSet h)
  then show ?case by (simp add: sameLinks_refl)
next
  case (4 fuel sourceSet otherSet directoriesInSourceSet name child rest h)
  from 4(3) obtain h1 where
    a: "markEntireDirectoriesNew fuel sourceSet otherSet directoriesInSourceSet child h = Some h1"
    and b: "markChildren fuel sourceSet otherSet directoriesInSourceSet rest h1 = Some h'"
    by (auto split: option.splits)
  from 4(1)[OF a] 4(2)[OF a b] show ?case by (rule sameLinks_trans)
qed

lemma heap_pruning_idempotent:
  assumes sh: "shaped h" and nd: "node < length h" and fuel: "length h \<le> fuel + node"
    and run: "removeEmptyDirectoriesAt fuel node h = Some (keep, h1)"
  shows "\<exists>h2. removeEmptyDirectoriesAt fuel node h1 = Some (keep, h2)
            \<and> treeAt h2 node = treeAt h1 node"
proof -
  from prune_refines(1)[OF sh nd fuel] run have
    keep: "keep = fst (removeEmptyDirectories (treeAt h node))"
    and t1: "treeAt h1 node = snd (removeEmptyDirectories (treeAt h node))"
    and ps: "pruneShape h h1" by auto
  have sh1: "shaped h1" using sh ps by (rule shaped_pruneShape)
  from ps have len: "length h1 = length h" by (simp add: pruneShape_def)
  from prune_refines(1)[OF sh1 nd[folded len] fuel[folded len]] obtain h2 where
    "removeEmptyDirectoriesAt fuel node h1 = Some (fst (removeEmptyDirectories (treeAt h1 node)), h2)"
    "treeAt h2 node = snd (removeEmptyDirectories (treeAt h1 node))" by blast
  then show ?thesis by (simp add: t1 keep prune_idem)
qed

lemma buildSmartTree_pruned:
  assumes "buildSmartTree files src oth = Some t"
  shows "\<exists>keep t'. removeEmptyDirectoriesAt (length t) 0 t = Some (keep, t')
            \<and> treeAt t' 0 = treeAt t 0"
proof -
  from assms obtain dirs h1 keep where
    m: "markEntireDirectoriesNew (length (buildTree files)) src oth dirs 0 (buildTree files) = Some h1"
    and p: "removeEmptyDirectoriesAt (length h1) 0 h1 = Some (keep, t)"
    by (auto simp: buildSmartTree_def Let_def split: option.splits)
  have sh1: "shaped h1" using buildTree_shaped mark_sameLinks(1)[OF m] by (rule shaped_sameLinks)
  have "0 < length (buildTree files)" using buildTree_treeInv by (simp add: treeInv_def)
  with mark_sameLinks(1)[OF m] have pos: "0 < length h1" by (simp add: sameLinks_def)
  from prune_refines(1)[OF sh1 pos, of "length h1"] p have "pruneShape h1 t" by auto
  then have len: "length t = length h1" by (simp add: pruneShape_def)
  from heap_pruning_idempotent[OF sh1 pos _ p] show ?thesis by (auto simp: len)
qed

section \<open>Properties of the differ\<close>

text \<open>
  Claim C3 (differ symmetry law). A record whose fingerprint is a key of the fingerprint index
  of catalog A and of catalog B is in none of the three lists that
  \<open>compareFileSets A B\<close> returns: not in the modified list, not in unique-to-A, not in
  unique-to-B, whatever its name is.
\<close>

theorem differ_symmetry:
  assumes "HashMap A (Hash r) \<noteq> None" and "HashMap B (Hash r) \<noteq> None"
  shows "r \<notin> set (SameNameDifferentHash (compareFileSets A B))
       \<and> r \<notin> set (UniqueToSet1 (compareFileSets A B))
       \<and> r \<notin> set (UniqueToSet2 (compareFileSets A B))"
  using assms
  by (simp add: compareFileSets_modified compareFileSets_unique1 compareFileSets_unique2)

theorem differ_symmetry_witness:
  "HashMap catalogOld (Hash (mkFile ''renamed.txt'' ''renamed.txt'' ''z'')) \<noteq> None
   \<and> HashMap catalogNew (Hash (mkFile ''renamed.txt'' ''renamed.txt'' ''z'')) \<noteq> None
   \<and> mkFile ''renamed.txt'' ''renamed.txt'' ''z'' \<in> set (FileSet.Files catalogNew)
   \<and> mkFile ''renamed.txt'' ''renamed.txt'' ''z''
        \<notin> set (SameNameDifferentHash (compareFileSets catalogOld catalogNew))
   \<and> mkFile ''renamed.txt'' ''renamed.txt'' ''z''
        \<notin> set (UniqueToSet1 (compareFileSets catalogOld catalogNew))
   \<and> mkFile ''renamed.txt'' ''renamed.txt'' ''z''
        \<notin> set (UniqueToSet2 (compareFileSets catalogOld catalogNew))"
proof -
  have a: "HashMap catalogOld (Hash (mkFile ''renamed.txt'' ''renamed.txt'' ''z'')) \<noteq> None"
    by (simp add: catalogOld_def mkFile_def)
  have b: "HashMap catalogNew (Hash (mkFile ''renamed.txt'' ''renamed.txt'' ''z'')) \<noteq> None"
    by (simp add: catalogNew_def mkFile_def)
  have c: "mkFile ''renamed.txt'' ''renamed.txt'' ''z'' \<in> set (FileSet.Files catalogNew)"
    by (simp add: catalogNew_def)
  from a b c differ_symmetry [OF a b] show ?thesis by blast
qed

text \<open>
  Claim C2 (differ classification). Let \<open>r\<close> be a record of catalog B: it is listed in
  \<open>Files\<close> and its fingerprint is a key of B's fingerprint index, as the scanner enters it
  for every record it appends. Then \<open>compareFileSets A B\<close> gives \<open>r\<close> exactly one
  outcome. If the fingerprint of \<open>r\<close> is a key of A's fingerprint index, \<open>r\<close> is in none
  of the lists. Otherwise, if the name of \<open>r\<close> is a key of A's name index, \<open>r\<close> is in
  the modified list and in no other, and the name mapping at that name is A's list of records
  with that name. Otherwise \<open>r\<close> is in unique-to-B and in no other list.
\<close>

theorem differ_classification:
  assumes "r \<in> set (FileSet.Files B)" and "HashMap B (Hash r) \<noteq> None"
  shows "(if HashMap A (Hash r) \<noteq> None
          then r \<notin> set (SameNameDifferentHash (compareFileSets A B))
             \<and> r \<notin> set (UniqueToSet2 (compareFileSets A B))
             \<and> r \<notin> set (UniqueToSet1 (compareFileSets A B))
          else if NameMap A (FileInfo.Name r) \<noteq> None
          then r \<in> set (SameNameDifferentHash (compareFileSets A B))
             \<and> NameMappings (compareFileSets A B) (FileInfo.Name r) = NameMap A (FileInfo.Name r)
             \<and> r \<notin> set (UniqueToSet2 (compareFileSets A B))
             \<and> r \<notin> set (UniqueToSet1 (compareFileSets A B))
          else r \<in> set (UniqueToSet2 (compareFileSets A B))
             \<and> r \<notin> set (SameNameDifferentHash (compareFileSets A B))
             \<and> r \<notin> set (UniqueToSet1 (compareFileSets A B)))"
proof -
  have m: "NameMappings (compareFileSets A B) (FileInfo.Name r) = NameMap A (FileInfo.Name r)"
    if "HashMap A (Hash r) = None" "NameMap A (FileInfo.Name r) \<noteq> None"
    unfolding compareFileSets_mappings using that assms(1) by auto
  show ?thesis
    using assms m
    by (simp add: compareFileSets_modified compareFileSets_unique1 compareFileSets_unique2)
qed

theorem differ_classification_witness:
  "mkFile ''renamed.txt'' ''renamed.txt'' ''z'' \<in> set (FileSet.Files catalogNew)
   \<and> mkFile ''renamed.txt'' ''renamed.txt'' ''z''
        \<notin> set (SameNameDifferentHash (compareFileSets catalogOld catalogNew))
   \<and> mkFile ''renamed.txt'' ''renamed.txt'' ''z''
        \<notin> set (UniqueToSet2 (compareFileSets catalogOld catalogNew))
   \<and> mkFile ''a.txt'' ''a.txt'' ''mod'' \<in> set (FileSet.Files catalogNew)
   \<and> mkFile ''a.txt'' ''a.txt'' ''mod''
        \<in> set (SameNameDifferentHash (compareFileSets catalogOld catalogNew))
   \<and> NameMappings (compareFileSets catalogOld catalogNew) ''a.txt''
        = Some [mkFile ''a.txt'' ''a.txt'' ''orig'', mkFile ''sub/a.txt'' ''a.txt'' ''orig2'']
   \<and> mkFile ''a.txt'' ''a.txt'' ''mod''
        \<notin> set (UniqueToSet2 (compareFileSets catalogOld catalogNew))
   \<and> mkFile ''extra.txt'' ''extra.txt'' ''y'' \<in> set (FileSet.Files catalogNew)
   \<and> mkFile ''extra.txt'' ''extra.txt'' ''y''
        \<in> set (UniqueToSet2 (compareFileSets catalogOld catalogNew))
   \<and> mkFile ''extra.txt'' ''extra.txt'' ''y''
        \<notin> set (SameNameDifferentHash (compareFileSets catalogOld catalogNew))"
proof -
  have in1: "mkFile ''renamed.txt'' ''renamed.txt'' ''z'' \<in> set (FileSet.Files catalogNew)"
    and in2: "mkFile ''a.txt'' ''a.txt'' ''mod'' \<in> set (FileSet.Files catalogNew)"
    and in3: "mkFile ''extra.txt'' ''extra.txt'' ''y'' \<in> set (FileSet.Files catalogNew)"
    by (simp_all add: catalogNew_def)
  have ix1: "HashMap catalogNew (Hash (mkFile ''renamed.txt'' ''renamed.txt'' ''z'')) \<noteq> None"
    and ix2: "HashMap catalogNew (Hash (mkFile ''a.txt'' ''a.txt'' ''mod'')) \<noteq> None"
    and ix3: "HashMap catalogNew (Hash (mkFile ''extra.txt'' ''extra.txt'' ''y'')) \<noteq> None"
    by (simp_all add: catalogNew_def mkFile_def)
  have k1: "HashMap catalogOld (Hash (mkFile ''renamed.txt'' ''renamed.txt'' ''z'')) \<noteq> None"
    by (simp add: catalogOld_def mkFile_def)
  have k2: "HashMap catalogOld (Hash (mkFile ''a.txt'' ''a.txt'' ''mod'')) = None"
    "NameMap catalogOld (FileInfo.Name (mkFile ''a.txt'' ''a.txt'' ''mod''))
       = Some [mkFile ''a.txt'' ''a.txt'' ''orig'', mkFile ''sub/a.txt'' ''a.txt'' ''orig2'']"
    "FileInfo.Name (mkFile ''a.txt'' ''a.txt'' ''mod'') = ''a.txt''"
    by (simp_all add: catalogOld_def mkFile_def)
  have k3: "HashMap catalogOld (Hash (mkFile ''extra.txt'' ''extra.txt'' ''y'')) = None"
    "NameMap catalogOld (FileInfo.Name (mkFile ''extra.txt'' ''extra.txt'' ''y'')) = None"
    by (simp_all add: catalogOld_def mkFile_def)
  from differ_classification [OF in1 ix1, of catalogOld] k1
    differ_classification [OF in2 ix2, of catalogOld] k2
    differ_classification [OF in3 ix3, of catalogOld] k3
    in1 in2 in3
  show ?thesis by simp
qed

text \<open>
  Claim C7 (order-insensitivity of the differ). When the records of A and of B are listed in
  another order, in \<open>Files\<close> and under each key of the two indexes, \<open>compareFileSets\<close>
  classifies as before: the modified, unique-to-A and unique-to-B lists hold the same sets of
  records, and the name mapping has the same names, each mapped to the same set of A-records.
\<close>

theorem differ_order_insensitive:
  assumes A: "permuted A' A" and B: "permuted B' B"
  shows "set (SameNameDifferentHash (compareFileSets A' B'))
           = set (SameNameDifferentHash (compareFileSets A B))
       \<and> set (UniqueToSet1 (compareFileSets A' B')) = set (UniqueToSet1 (compareFileSets A B))
       \<and> set (UniqueToSet2 (compareFileSets A' B')) = set (UniqueToSet2 (compareFileSets A B))
       \<and> (\<forall>n. map_option set (NameMappings (compareFileSets A' B') n)
              = map_option set (NameMappings (compareFileSets A B) n))"
proof -
  note nn = permuted_NameMap_None permuted_HashMap_None
  have 1: "set (SameNameDifferentHash (compareFileSets A' B'))
           = set (SameNameDifferentHash (compareFileSets A B))"
    by (simp add: compareFileSets_modified nn[OF A] permuted_set[OF B])
  have 2: "set (UniqueToSet1 (compareFileSets A' B')) = set (UniqueToSet1 (compareFileSets A B))"
    by (simp add: compareFileSets_unique1 nn[OF B] permuted_set[OF A])
  have 3: "set (UniqueToSet2 (compareFileSets A' B')) = set (UniqueToSet2 (compareFileSets A B))"
    by (simp add: compareFileSets_unique2 nn[OF A] permuted_set[OF B])
  have 4: "map_option set (NameMappings (compareFileSets A' B') n)
              = map_option set (NameMappings (compareFileSets A B) n)" for n
  proof -
    have c: "(\<exists>f\<in>set (FileSet.Files B'). HashMap A' (Hash f) = None \<and> NameMap A' (FileInfo.Name f) \<noteq> None \<and> FileInfo.Name f = n)
        = (\<exists>f\<in>set (FileSet.Files B). HashMap A (Hash f) = None \<and> NameMap A (FileInfo.Name f) \<noteq> None \<and> FileInfo.Name f = n)"
      by (simp only: nn[OF A] permuted_set[OF B])
    show ?thesis
      unfolding compareFileSets_mappings c
      using permuted_NameMap_set[OF A, of n] by auto
  qed
  from 1 2 3 4 show ?thesis by blast
qed


theorem differ_order_insensitive_witness:
  "permuted catalogOldShuffled catalogOld \<and> permuted catalogNewShuffled catalogNew
   \<and> set (SameNameDifferentHash (compareFileSets catalogOldShuffled catalogNewShuffled))
       = {mkFile ''a.txt'' ''a.txt'' ''mod''}
   \<and> set (SameNameDifferentHash (compareFileSets catalogOldShuffled catalogNewShuffled))
       = set (SameNameDifferentHash (compareFileSets catalogOld catalogNew))
   \<and> set (UniqueToSet1 (compareFileSets catalogOldShuffled catalogNewShuffled))
       = set (UniqueToSet1 (compareFileSets catalogOld catalogNew))
   \<and> set (UniqueToSet2 (compareFileSets catalogOldShuffled catalogNewShuffled))
       = set (UniqueToSet2 (compareFileSets catalogOld catalogNew))
   \<and> map_option set (NameMappings (compareFileSets catalogOldShuffled catalogNewShuffled) ''a.txt'')
       = map_option set (NameMappings (compareFileSets catalogOld catalogNew) ''a.txt'')"
proof -
  have a: "permuted catalogOldShuffled catalogOld"
    by (simp add: permuted_def catalogOldShuffled_def catalogOld_def)
  have b: "permuted catalogNewShuffled catalogNew"
    by (simp add: permuted_def catalogNewShuffled_def catalogNew_def)
  have c: "set (SameNameDifferentHash (compareFileSets catalogOld catalogNew))
             = {mkFile ''a.txt'' ''a.txt'' ''mod''}"
    by (simp add: compareFileSets_example)
  from differ_order_insensitive [OF a b] a b c show ?thesis by simp
qed

section \<open>Properties of the scanner\<close>

text \<open>
  Claim C9 (catalog index consistency). Every catalog that the scanner returns, by
  \<open>processFilesSequentially\<close>, by \<open>processFilesInParallel\<close> (whatever the order of
  arrival) or by \<open>walkDirectoriesWithLimit\<close>, has indexes that derive from its record
  list: \<open>NameMap\<close> at a name is the list of the records of \<open>Files\<close> with that name,
  \<open>HashMap\<close> at a fingerprint the list of the records with that fingerprint, every
  record as often as it is in \<open>Files\<close>, and there is no key without a record. Both maps
  map to lists by their type.
\<close>

theorem scan_index_consistent:
  "indexed (fst (processFilesSequentially env tasks printedBefore))
   \<and> indexed (fst (processFilesInParallel env tasks printedBefore))
   \<and> (case walkDirectoriesWithLimit env dirs limit of
         Inl err \<Rightarrow> True
       | Inr (S, out) \<Rightarrow> indexed S)"
proof -
  have "case walkDirectoriesWithLimit env dirs limit of
         Inl err \<Rightarrow> True
       | Inr (S, out) \<Rightarrow> indexed S"
    unfolding walk_cases
    by (cases "collectTasks env limit dirs initialCollecting")
       (simp_all add: sequential_indexed parallel_indexed split: prod.splits,
        metis fst_conv sequential_indexed parallel_indexed)
  then show ?thesis by (simp add: sequential_indexed parallel_indexed)
qed

theorem scan_index_consistent_witness:
  "(case walkDirectoriesWithLimit exampleEnv [''/missing'', ''/r'', ''/s''] (- 1) of
      Inl err \<Rightarrow> False
    | Inr (S, out) \<Rightarrow>
        indexed S
        \<and> map RelativePath (FileSet.Files S) = [''a.txt'', ''sub/a.txt'', ''c.txt'']
        \<and> map_option (map RelativePath) (NameMap S ''a.txt'') = Some [''a.txt'', ''sub/a.txt'']
        \<and> map_option (map RelativePath) (HashMap S ''sha-/s/c.txt'') = Some [''c.txt''])"
proof -
  have a: "(case walkDirectoriesWithLimit exampleEnv [''/missing'', ''/r'', ''/s''] (- 1) of
      Inl err \<Rightarrow> False
    | Inr (S, out) \<Rightarrow>
        map RelativePath (FileSet.Files S) = [''a.txt'', ''sub/a.txt'', ''c.txt'']
        \<and> map_option (map RelativePath) (NameMap S ''a.txt'') = Some [''a.txt'', ''sub/a.txt'']
        \<and> map_option (map RelativePath) (HashMap S ''sha-/s/c.txt'') = Some [''c.txt''])"
    by code_simp
  from scan_index_consistent [of exampleEnv "[]" "[]" "[''/missing'', ''/r'', ''/s'']" "- 1"] a
  show ?thesis by (auto split: sum.splits prod.splits)
qed

text \<open>
  Claim C4 (sequential and parallel refinement). When every job's result arrives once,
  \<open>processFilesInParallel\<close> and \<open>processFilesSequentially\<close> on the same tasks give
  catalogs with the same number of records, the same multiset of fingerprints and the same
  multiset of records: they differ in the order of the records at most. Hashing errors need
  not be excluded, both paths skip the same files. The scan takes the sequential path
  exactly when it has enumerated fewer than 20 candidate files.
\<close>

theorem sequential_parallel_refinement:
  assumes "fairArrival env"
  shows "length (FileSet.Files (fst (processFilesInParallel env tasks out)))
           = length (FileSet.Files (fst (processFilesSequentially env tasks out)))
       \<and> mset (map Hash (FileSet.Files (fst (processFilesInParallel env tasks out))))
           = mset (map Hash (FileSet.Files (fst (processFilesSequentially env tasks out))))
       \<and> mset (FileSet.Files (fst (processFilesInParallel env tasks out)))
           = mset (FileSet.Files (fst (processFilesSequentially env tasks out)))
       \<and> walkDirectoriesWithLimit env dirs limit =
           (case collectTasks env limit dirs \<lparr>allTasks = [], taskCount = 0, printed = []\<rparr> of
              Inl err \<Rightarrow> Inl err
            | Inr st \<Rightarrow>
                Inr (if length (allTasks st) < 20
                     then processFilesSequentially env (allTasks st) (printed st)
                     else processFilesInParallel env (allTasks st) (printed st)))"
proof -
  have m: "mset (FileSet.Files (fst (processFilesInParallel env tasks out)))
           = mset (FileSet.Files (fst (processFilesSequentially env tasks out)))"
    by (simp add: parallel_Files_mset[OF assms] sequential_Files)
  from m have l: "length (FileSet.Files (fst (processFilesInParallel env tasks out)))
           = length (FileSet.Files (fst (processFilesSequentially env tasks out)))"
    by (rule mset_eq_length)
  from m have h: "mset (map Hash (FileSet.Files (fst (processFilesInParallel env tasks out))))
           = mset (map Hash (FileSet.Files (fst (processFilesSequentially env tasks out))))"
    by (metis mset_map)
  from m l h walk_cases[of env dirs limit] show ?thesis
    by (simp add: initialCollecting_def)
qed

theorem sequential_parallel_refinement_witness:
  "fairArrival exampleEnv
   \<and> length (FileSet.Files (fst (processFilesInParallel exampleEnv (manyTasks 25) []))) = 25
   \<and> FileSet.Files (fst (processFilesInParallel exampleEnv (manyTasks 25) []))
       \<noteq> FileSet.Files (fst (processFilesSequentially exampleEnv (manyTasks 25) []))
   \<and> mset (map Hash (FileSet.Files (fst (processFilesInParallel exampleEnv (manyTasks 25) []))))
       = mset (map Hash (FileSet.Files (fst (processFilesSequentially exampleEnv (manyTasks 25) []))))
   \<and> walkDirectoriesWithLimit (flatEnv 19) [''/r''] (- 1)
       = Inr (processFilesSequentially (flatEnv 19) (candidates (flatEnv 19) [''/r'']) [])
   \<and> walkDirectoriesWithLimit (flatEnv 20) [''/r''] (- 1)
       = Inr (processFilesInParallel (flatEnv 20) (candidates (flatEnv 20) [''/r'']) [])"
proof -
  have s: "length (FileSet.Files (fst (processFilesSequentially exampleEnv (manyTasks 25) []))) = 25"
    by code_simp
  have d: "FileSet.Files (fst (processFilesInParallel exampleEnv (manyTasks 25) []))
       \<noteq> FileSet.Files (fst (processFilesSequentially exampleEnv (manyTasks 25) []))"
    by code_simp
  have f19: "fairArrival (flatEnv 19)" and f20: "fairArrival (flatEnv 20)"
    by (simp_all add: fairArrival_def flatEnv_def exampleEnv_def)
  have l19: "length (candidates (flatEnv 19) [''/r'']) = 19"
    and l20: "length (candidates (flatEnv 20) [''/r'']) = 20"
    by code_simp+
  have w19: "scanWarnings (flatEnv 19) [''/r''] = []"
    and w20: "scanWarnings (flatEnv 20) [''/r''] = []"
    by code_simp+
  have n19: "\<forall>dir\<in>set [''/r'']. \<not> isNotExist (flatEnv 19) dir \<longrightarrow> walkFailure (flatEnv 19) dir = None"
    and n20: "\<forall>dir\<in>set [''/r'']. \<not> isNotExist (flatEnv 20) dir \<longrightarrow> walkFailure (flatEnv 20) dir = None"
    by (simp_all add: flatEnv_def exampleEnv_def)
  have c19: "collectTasks (flatEnv 19) (- 1) [''/r''] \<lparr>allTasks = [], taskCount = 0, printed = []\<rparr>
               = Inr \<lparr>allTasks = candidates (flatEnv 19) [''/r''], taskCount = 19, printed = []\<rparr>"
    using collectTasks_unlimited[OF _ n19, of "- 1"] by (simp add: l19 w19)
  have c20: "collectTasks (flatEnv 20) (- 1) [''/r''] \<lparr>allTasks = [], taskCount = 0, printed = []\<rparr>
               = Inr \<lparr>allTasks = candidates (flatEnv 20) [''/r''], taskCount = 20, printed = []\<rparr>"
    using collectTasks_unlimited[OF _ n20, of "- 1"] by (simp add: l20 w20)
  from sequential_parallel_refinement [OF fair_example, of "manyTasks 25" "[]"] s d
    sequential_parallel_refinement [OF f19, of "[]" "[]" "[''/r'']" "- 1"]
    sequential_parallel_refinement [OF f20, of "[]" "[]" "[''/r'']" "- 1"]
    fair_example
  show ?thesis unfolding c19 c20 by (simp add: l19 l20)
qed

text \<open>
  Claim C5 (error absorption). Let the scan be a call of \<open>walkDirectoriesWithLimit\<close> with
  a limit, or a call of \<open>walkDirectories\<close>, which has none. It returns an error only
  when the traversal of an existing root reports a failure of its own, and the error names
  that root. When no traversal does, the scan returns a catalog. In every scan that returns
  a catalog, each missing root is skipped with a warning; each entry that could not be
  accessed and that the traversal meets is skipped with a warning, whatever the limit: the
  traversal of a root meets an entry when there is no limit, or no file comes before the
  entry in this root, or the files of the roots before and the files before the entry in
  this root are not more than the limit; each enumerated file whose hashing fails is
  skipped with a warning; every record of the catalog carries the hash of its file; and the
  catalog holds exactly the records of the enumerated files that could be hashed.
\<close>

theorem scan_absorbs_errors:
  assumes fair: "fairArrival env"
    and call: "scan = walkDirectoriesWithLimit env dirs limit \<and> lim = limit
               \<or> scan = walkDirectories env dirs \<and> lim = - 1"
  shows "(\<forall>e. scan = Inl e \<longrightarrow>
            (\<exists>dir\<in>set dirs. \<exists>err. \<not> isNotExist env dir \<and> walkFailure env dir = Some err
                \<and> e = ErrorWalking dir err))
       \<and> ((\<forall>dir\<in>set dirs. \<not> isNotExist env dir \<longrightarrow> walkFailure env dir = None) \<longrightarrow>
            (\<exists>S out. scan = Inr (S, out)))
       \<and> (\<forall>S out. scan = Inr (S, out) \<longrightarrow>
            (\<forall>dir\<in>set dirs. isNotExist env dir \<longrightarrow> WarnDirMissing dir \<in> set out)
            \<and> (\<forall>pre dir post before path err after.
                  dirs = pre @ dir # post \<longrightarrow> \<not> isNotExist env dir \<longrightarrow>
                  walkVisits env dir = before @ EntryError path err # after \<longrightarrow>
                  (lim \<le> 0 \<or> tasksOf env dir before = []
                   \<or> int (length (candidates env pre) + length (tasksOf env dir before)) \<le> lim) \<longrightarrow>
                  WarnAccess path err \<in> set out)
            \<and> (lim \<le> 0 \<longrightarrow>
                 (\<forall>dir\<in>set dirs. \<not> isNotExist env dir \<longrightarrow>
                    (\<forall>path err. EntryError path err \<in> set (walkVisits env dir)
                        \<longrightarrow> WarnAccess path err \<in> set out)))
            \<and> (\<forall>task\<in>set (capped lim 0 (candidates env dirs)). \<forall>err.
                  hashFile env (Path task) = Inl err \<longrightarrow>
                    (WarnCouldNotHash (Path task) err \<in> set out
                     \<or> WarnError (CouldNotHash (Path task) err) \<in> set out))
            \<and> (\<forall>f\<in>set (FileSet.Files S). hashFile env (AbsolutePath f) = Inr (Hash f))
            \<and> mset (FileSet.Files S) = mset (cataloged env (capped lim 0 (candidates env dirs))))"
proof -
  from call have scan: "scan = walkDirectoriesWithLimit env dirs lim"
    by (auto simp: walkDirectories_def)
  have 1: "\<exists>dir\<in>set dirs. \<exists>err. \<not> isNotExist env dir \<and> walkFailure env dir = Some err
                \<and> e = ErrorWalking dir err"
    if "scan = Inl e" for e
  proof -
    from that have "collectTasks env lim dirs initialCollecting = Inl e"
      by (simp add: scan walk_cases split: sum.splits)
    then show ?thesis by (rule collectTasks_error)
  qed
  have 2: "\<exists>S out. scan = Inr (S, out)"
    if "\<forall>dir\<in>set dirs. \<not> isNotExist env dir \<longrightarrow> walkFailure env dir = None"
  proof -
    from collectTasks_succeeds[OF that] obtain st where
      "collectTasks env lim dirs initialCollecting = Inr st" by blast
    then show ?thesis by (simp add: scan walk_cases)
  qed
  have 3: "(\<forall>dir\<in>set dirs. isNotExist env dir \<longrightarrow> WarnDirMissing dir \<in> set out)
            \<and> (\<forall>pre dir post before path err after.
                  dirs = pre @ dir # post \<longrightarrow> \<not> isNotExist env dir \<longrightarrow>
                  walkVisits env dir = before @ EntryError path err # after \<longrightarrow>
                  (lim \<le> 0 \<or> tasksOf env dir before = []
                   \<or> int (length (candidates env pre) + length (tasksOf env dir before)) \<le> lim) \<longrightarrow>
                  WarnAccess path err \<in> set out)
            \<and> (lim \<le> 0 \<longrightarrow>
                 (\<forall>dir\<in>set dirs. \<not> isNotExist env dir \<longrightarrow>
                    (\<forall>path err. EntryError path err \<in> set (walkVisits env dir)
                        \<longrightarrow> WarnAccess path err \<in> set out)))
            \<and> (\<forall>task\<in>set (capped lim 0 (candidates env dirs)). \<forall>err.
                  hashFile env (Path task) = Inl err \<longrightarrow>
                    (WarnCouldNotHash (Path task) err \<in> set out
                     \<or> WarnError (CouldNotHash (Path task) err) \<in> set out))
            \<and> (\<forall>f\<in>set (FileSet.Files S). hashFile env (AbsolutePath f) = Inr (Hash f))
            \<and> mset (FileSet.Files S) = mset (cataloged env (capped lim 0 (candidates env dirs)))"
    if res0: "scan = Inr (S, out)" for S out
  proof -
    from res0 scan have res: "walkDirectoriesWithLimit env dirs lim = Inr (S, out)" by simp
    from walk_Inr[OF fair res] obtain st where
      c: "collectTasks env lim dirs initialCollecting = Inr st"
      and t: "allTasks st = capped lim 0 (candidates env dirs)"
      and m: "mset (FileSet.Files S) = mset (cataloged env (allTasks st))"
      and p: "set (printed st) \<subseteq> set out"
      and w: "\<forall>task\<in>set (allTasks st). \<forall>err. hashFile env (Path task) = Inl err \<longrightarrow>
             WarnCouldNotHash (Path task) err \<in> set out
             \<or> WarnError (CouldNotHash (Path task) err) \<in> set out"
      by blast
    from collectTasks_printed[OF c] p
    have a: "\<forall>dir\<in>set dirs. isNotExist env dir \<longrightarrow> WarnDirMissing dir \<in> set out" by blast
    have r: "WarnAccess path err \<in> set out"
      if "dirs = pre @ dir # post" "\<not> isNotExist env dir"
        "walkVisits env dir = before @ EntryError path err # after"
        "lim \<le> 0 \<or> tasksOf env dir before = []
           \<or> int (length (candidates env pre) + length (tasksOf env dir before)) \<le> lim"
      for pre dir post before path err after
    proof -
      from that(4) have "lim \<le> 0 \<or> tasksOf env dir before = []
         \<or> taskCount initialCollecting + int (length (candidates env pre))
              + int (length (tasksOf env dir before)) \<le> lim"
        by (simp add: initialCollecting_def)
      from collectTasks_reaches[OF c[unfolded that(1)] that(2,3) this] p show ?thesis by blast
    qed
    have b: "WarnAccess path err \<in> set out"
      if "lim \<le> 0" "dir \<in> set dirs" "\<not> isNotExist env dir"
        "EntryError path err \<in> set (walkVisits env dir)" for dir path err
    proof -
      from collectTasks_unlimited_printed[OF that(1) c] that(2,3)
      have "set (accessWarnings (walkVisits env dir)) \<subseteq> set (printed st)" by blast
      with accessWarnings_mem[OF that(4)] p show ?thesis by blast
    qed
    from m have "set (FileSet.Files S) = set (cataloged env (allTasks st))" by (rule mset_eq_setD)
    then have h: "\<forall>f\<in>set (FileSet.Files S). hashFile env (AbsolutePath f) = Inr (Hash f)"
      by (auto dest: cataloged_hash)
    have r2: "\<forall>pre dir post before path err after.
                  dirs = pre @ dir # post \<longrightarrow> \<not> isNotExist env dir \<longrightarrow>
                  walkVisits env dir = before @ EntryError path err # after \<longrightarrow>
                  (lim \<le> 0 \<or> tasksOf env dir before = []
                   \<or> int (length (candidates env pre) + length (tasksOf env dir before)) \<le> lim) \<longrightarrow>
                  WarnAccess path err \<in> set out"
      using r by (intro allI impI)
    have b2: "lim \<le> 0 \<longrightarrow>
                 (\<forall>dir\<in>set dirs. \<not> isNotExist env dir \<longrightarrow>
                    (\<forall>path err. EntryError path err \<in> set (walkVisits env dir)
                        \<longrightarrow> WarnAccess path err \<in> set out))"
      using b by (intro allI impI ballI)
    from a r2 b2 w[unfolded t] h m[unfolded t] show ?thesis by (intro conjI)
  qed
  have e1: "\<forall>e. scan = Inl e \<longrightarrow>
            (\<exists>dir\<in>set dirs. \<exists>err. \<not> isNotExist env dir \<and> walkFailure env dir = Some err
                \<and> e = ErrorWalking dir err)"
    using 1 by (intro allI impI)
  have e2: "(\<forall>dir\<in>set dirs. \<not> isNotExist env dir \<longrightarrow> walkFailure env dir = None) \<longrightarrow>
            (\<exists>S out. scan = Inr (S, out))"
    using 2 by (intro impI)
  show ?thesis
    by (intro conjI) (rule e1, rule e2, intro allI impI, rule 3, assumption)
qed

theorem scan_absorbs_errors_witness:
  "fairArrival exampleEnv
   \<and> (\<exists>S out. walkDirectoriesWithLimit exampleEnv [''/missing'', ''/r'', ''/s''] 1 = Inr (S, out)
         \<and> WarnDirMissing ''/missing'' \<in> set out
         \<and> WarnAccess ''/r/locked'' (OSError ''permission denied'') \<in> set out
         \<and> out = [WarnDirMissing ''/missing'',
                   WarnAccess ''/r/locked'' (OSError ''permission denied'')]
         \<and> mset (FileSet.Files S)
             = mset (cataloged exampleEnv
                       (capped 1 0 (candidates exampleEnv [''/missing'', ''/r'', ''/s''])))
         \<and> map AbsolutePath (FileSet.Files S) = [''/r/a.txt''])
   \<and> (\<exists>S out. walkDirectories exampleEnv [''/missing'', ''/r'', ''/s''] = Inr (S, out)
         \<and> WarnDirMissing ''/missing'' \<in> set out
         \<and> WarnAccess ''/r/locked'' (OSError ''permission denied'') \<in> set out
         \<and> out = [WarnDirMissing ''/missing'',
                   WarnAccess ''/r/locked'' (OSError ''permission denied''),
                   WarnCouldNotHash ''/r/sub/b.txt'' (OSError ''unreadable'')]
         \<and> mset (FileSet.Files S)
             = mset (cataloged exampleEnv
                       (capped (- 1) 0 (candidates exampleEnv [''/missing'', ''/r'', ''/s''])))
         \<and> map AbsolutePath (FileSet.Files S) = [''/r/a.txt'', ''/r/sub/a.txt'', ''/s/c.txt''])"
proof -
  let ?dirs = "[''/missing'', ''/r'', ''/s'']"
  let ?locked = "WarnAccess ''/r/locked'' (OSError ''permission denied'')"
  have nf: "\<forall>dir\<in>set ?dirs. \<not> isNotExist exampleEnv dir \<longrightarrow> walkFailure exampleEnv dir = None"
    by (simp add: exampleEnv_def)
  have missing: "''/missing'' \<in> set ?dirs" "isNotExist exampleEnv ''/missing''"
    by (simp_all add: exampleEnv_def)
  have split: "?dirs = [''/missing''] @ ''/r'' # [''/s'']" by simp
  have exists: "\<not> isNotExist exampleEnv ''/r''" by (simp add: exampleEnv_def)
  have visits: "walkVisits exampleEnv ''/r''
      = [dirEntry ''/r'' ''r'', fileEntry ''/r/a.txt'' ''a.txt'']
        @ EntryError ''/r/locked'' (OSError ''permission denied'')
        # [dirEntry ''/r/sub'' ''sub'', fileEntry ''/r/sub/a.txt'' ''a.txt'',
           fileEntry ''/r/sub/b.txt'' ''b.txt'']"
    by (simp add: exampleEnv_def)
  have room: "int (length (candidates exampleEnv [''/missing''])
                + length (tasksOf exampleEnv ''/r''
                            [dirEntry ''/r'' ''r'', fileEntry ''/r/a.txt'' ''a.txt''])) \<le> 1"
    by (simp add: candidates_def tasksOf_def exampleEnv_def dirEntry_def fileEntry_def)

  have ev1: "(case walkDirectoriesWithLimit exampleEnv ?dirs 1 of
               Inl e \<Rightarrow> False
             | Inr (S, out) \<Rightarrow>
                 out = [WarnDirMissing ''/missing'', ?locked]
                 \<and> map AbsolutePath (FileSet.Files S) = [''/r/a.txt''])"
    by code_simp
  have call1: "walkDirectoriesWithLimit exampleEnv ?dirs 1 = walkDirectoriesWithLimit exampleEnv ?dirs 1
                 \<and> (1::int) = 1
               \<or> walkDirectoriesWithLimit exampleEnv ?dirs 1 = walkDirectories exampleEnv ?dirs
                 \<and> (1::int) = - 1"
    by simp
  note limited = scan_absorbs_errors [OF fair_example call1]
  from limited[THEN conjunct2, THEN conjunct1] nf obtain S1 out1 where
    r1: "walkDirectoriesWithLimit exampleEnv ?dirs 1 = Inr (S1, out1)" by blast
  note l = limited[THEN conjunct2, THEN conjunct2, rule_format, OF r1]
  have l1: "WarnDirMissing ''/missing'' \<in> set out1"
    using l[THEN conjunct1] missing by blast
  have l2: "?locked \<in> set out1"
    using l[THEN conjunct2, THEN conjunct1, rule_format, OF split exists visits] room by blast
  have l3: "mset (FileSet.Files S1)
             = mset (cataloged exampleEnv (capped 1 0 (candidates exampleEnv ?dirs)))"
    using l by (intro l[THEN conjunct2, THEN conjunct2, THEN conjunct2, THEN conjunct2, THEN conjunct2])
  from ev1 r1 have l4: "out1 = [WarnDirMissing ''/missing'', ?locked]
                 \<and> map AbsolutePath (FileSet.Files S1) = [''/r/a.txt'']"
    by simp
  from r1 l1 l2 l3 l4 have first:
    "\<exists>S out. walkDirectoriesWithLimit exampleEnv ?dirs 1 = Inr (S, out)
         \<and> WarnDirMissing ''/missing'' \<in> set out
         \<and> ?locked \<in> set out
         \<and> out = [WarnDirMissing ''/missing'', ?locked]
         \<and> mset (FileSet.Files S)
             = mset (cataloged exampleEnv (capped 1 0 (candidates exampleEnv ?dirs)))
         \<and> map AbsolutePath (FileSet.Files S) = [''/r/a.txt'']"
    by (intro exI[of _ S1] exI[of _ out1]) simp

  have ev2: "(case walkDirectories exampleEnv ?dirs of
               Inl e \<Rightarrow> False
             | Inr (S, out) \<Rightarrow>
                 out = [WarnDirMissing ''/missing'', ?locked,
                        WarnCouldNotHash ''/r/sub/b.txt'' (OSError ''unreadable'')]
                 \<and> map AbsolutePath (FileSet.Files S) = [''/r/a.txt'', ''/r/sub/a.txt'', ''/s/c.txt''])"
    by code_simp
  have call2: "walkDirectories exampleEnv ?dirs = walkDirectoriesWithLimit exampleEnv ?dirs 1
                 \<and> (- 1::int) = 1
               \<or> walkDirectories exampleEnv ?dirs = walkDirectories exampleEnv ?dirs
                 \<and> (- 1::int) = - 1"
    by simp
  note unlimited = scan_absorbs_errors [OF fair_example call2]
  from unlimited[THEN conjunct2, THEN conjunct1] nf obtain S2 out2 where
    r2: "walkDirectories exampleEnv ?dirs = Inr (S2, out2)" by blast
  note u = unlimited[THEN conjunct2, THEN conjunct2, rule_format, OF r2]
  have u1: "WarnDirMissing ''/missing'' \<in> set out2"
    using u[THEN conjunct1] missing by blast
  have locked: "''/r'' \<in> set ?dirs"
    "EntryError ''/r/locked'' (OSError ''permission denied'') \<in> set (walkVisits exampleEnv ''/r'')"
    by (simp_all add: exampleEnv_def)
  have "(- 1::int) \<le> 0" by simp
  from u[THEN conjunct2, THEN conjunct2, THEN conjunct1, rule_format, OF this locked(1) exists locked(2)]
  have u2: "?locked \<in> set out2" .
  have u3: "mset (FileSet.Files S2)
             = mset (cataloged exampleEnv (capped (- 1) 0 (candidates exampleEnv ?dirs)))"
    by (intro u[THEN conjunct2, THEN conjunct2, THEN conjunct2, THEN conjunct2, THEN conjunct2])
  from ev2 r2 have u4: "out2 = [WarnDirMissing ''/missing'', ?locked,
                        WarnCouldNotHash ''/r/sub/b.txt'' (OSError ''unreadable'')]
                 \<and> map AbsolutePath (FileSet.Files S2) = [''/r/a.txt'', ''/r/sub/a.txt'', ''/s/c.txt'']"
    by simp
  from r2 u1 u2 u3 u4 have second:
    "\<exists>S out. walkDirectories exampleEnv ?dirs = Inr (S, out)
         \<and> WarnDirMissing ''/missing'' \<in> set out
         \<and> ?locked \<in> set out
         \<and> out = [WarnDirMissing ''/missing'', ?locked,
                   WarnCouldNotHash ''/r/sub/b.txt'' (OSError ''unreadable'')]
         \<and> mset (FileSet.Files S)
             = mset (cataloged exampleEnv (capped (- 1) 0 (candidates exampleEnv ?dirs)))
         \<and> map AbsolutePath (FileSet.Files S) = [''/r/a.txt'', ''/r/sub/a.txt'', ''/s/c.txt'']"
    by (intro exI[of _ S2] exI[of _ out2]) simp
  from fair_example first second show ?thesis by (intro conjI)
qed

text \<open>
  Claim C6 (file cap). In a scan that returns a catalog: with a positive limit the
  enumeration holds the first \<open>limit\<close> candidate files counted over all roots together,
  so at most \<open>limit\<close> tasks, and the catalog at most \<open>limit\<close> records; with a limit of
  zero or less it holds every candidate file, and the catalog the records of all that could
  be hashed. \<open>walkDirectories\<close> is the scan with limit \<open>-1\<close>.
\<close>

theorem file_cap:
  assumes fair: "fairArrival env"
    and res: "walkDirectoriesWithLimit env dirs limit = Inr (S, out)"
  shows "(0 < limit \<longrightarrow>
            (\<exists>st. collectTasks env limit dirs \<lparr>allTasks = [], taskCount = 0, printed = []\<rparr> = Inr st
                \<and> allTasks st = take (nat limit) (candidates env dirs)
                \<and> int (length (allTasks st)) \<le> limit)
            \<and> mset (FileSet.Files S) = mset (cataloged env (take (nat limit) (candidates env dirs)))
            \<and> int (length (FileSet.Files S)) \<le> limit)
       \<and> (limit \<le> 0 \<longrightarrow>
            (\<exists>st. collectTasks env limit dirs \<lparr>allTasks = [], taskCount = 0, printed = []\<rparr> = Inr st
                \<and> allTasks st = candidates env dirs)
            \<and> mset (FileSet.Files S) = mset (cataloged env (candidates env dirs)))
       \<and> walkDirectories env dirs = walkDirectoriesWithLimit env dirs (- 1)"
proof -
  from walk_Inr[OF fair res] obtain st where
    c: "collectTasks env limit dirs initialCollecting = Inr st"
    and t: "allTasks st = capped limit 0 (candidates env dirs)"
    and m: "mset (FileSet.Files S) = mset (cataloged env (allTasks st))"
    by blast
  have l: "length (FileSet.Files S) \<le> length (allTasks st)"
    using mset_eq_length[OF m] cataloged_length[of env "allTasks st"] by simp
  have pos: "allTasks st = take (nat limit) (candidates env dirs) \<and> int (length (allTasks st)) \<le> limit"
    if "0 < limit"
    using that t by (simp add: capped_def)
  have neg: "allTasks st = candidates env dirs" if "limit \<le> 0"
    using that t by (simp add: capped_def)
  from c pos neg m l show ?thesis
    by (auto simp: initialCollecting_def walkDirectories_def)
qed

theorem file_cap_witness:
  "fairArrival exampleEnv
   \<and> (\<exists>S out. walkDirectoriesWithLimit exampleEnv [''/missing'', ''/r'', ''/s''] 3 = Inr (S, out)
         \<and> int (length (FileSet.Files S)) \<le> 3
         \<and> mset (FileSet.Files S)
             = mset (cataloged exampleEnv (take (nat 3) (candidates exampleEnv [''/missing'', ''/r'', ''/s''])))
         \<and> map AbsolutePath (FileSet.Files S) = [''/r/a.txt'', ''/r/sub/a.txt''])
   \<and> (\<exists>S out. walkDirectories exampleEnv [''/missing'', ''/r'', ''/s''] = Inr (S, out)
         \<and> mset (FileSet.Files S)
             = mset (cataloged exampleEnv (candidates exampleEnv [''/missing'', ''/r'', ''/s'']))
         \<and> map AbsolutePath (FileSet.Files S) = [''/r/a.txt'', ''/r/sub/a.txt'', ''/s/c.txt''])
   \<and> map Path (candidates exampleEnv [''/missing'', ''/r'', ''/s''])
        = [''/r/a.txt'', ''/r/sub/a.txt'', ''/r/sub/b.txt'', ''/s/c.txt'']"
proof -
  let ?dirs = "[''/missing'', ''/r'', ''/s'']"
  have ev3: "(case walkDirectoriesWithLimit exampleEnv ?dirs 3 of
               Inl e \<Rightarrow> False
             | Inr (S, out) \<Rightarrow> map AbsolutePath (FileSet.Files S) = [''/r/a.txt'', ''/r/sub/a.txt''])"
    by code_simp
  have evn: "(case walkDirectoriesWithLimit exampleEnv ?dirs (- 1) of
               Inl e \<Rightarrow> False
             | Inr (S, out) \<Rightarrow>
                 map AbsolutePath (FileSet.Files S) = [''/r/a.txt'', ''/r/sub/a.txt'', ''/s/c.txt''])"
    by code_simp
  have cand: "map Path (candidates exampleEnv ?dirs)
        = [''/r/a.txt'', ''/r/sub/a.txt'', ''/r/sub/b.txt'', ''/s/c.txt'']"
    by code_simp
  from ev3 obtain S3 out3 where r3: "walkDirectoriesWithLimit exampleEnv ?dirs 3 = Inr (S3, out3)"
    and f3: "map AbsolutePath (FileSet.Files S3) = [''/r/a.txt'', ''/r/sub/a.txt'']"
    by (auto split: sum.splits)
  from evn obtain Sn outn where rn: "walkDirectoriesWithLimit exampleEnv ?dirs (- 1) = Inr (Sn, outn)"
    and fn: "map AbsolutePath (FileSet.Files Sn) = [''/r/a.txt'', ''/r/sub/a.txt'', ''/s/c.txt'']"
    by (auto split: sum.splits)
  from file_cap [OF fair_example r3]
  have a: "int (length (FileSet.Files S3)) \<le> 3
         \<and> mset (FileSet.Files S3) = mset (cataloged exampleEnv (take (nat 3) (candidates exampleEnv ?dirs)))"
    by simp
  from file_cap [OF fair_example rn]
  have b: "mset (FileSet.Files Sn) = mset (cataloged exampleEnv (candidates exampleEnv ?dirs))"
    and w: "walkDirectories exampleEnv ?dirs = walkDirectoriesWithLimit exampleEnv ?dirs (- 1)"
    by simp_all
  have e3: "\<exists>S out. walkDirectoriesWithLimit exampleEnv ?dirs 3 = Inr (S, out)
         \<and> int (length (FileSet.Files S)) \<le> 3
         \<and> mset (FileSet.Files S)
             = mset (cataloged exampleEnv (take (nat 3) (candidates exampleEnv ?dirs)))
         \<and> map AbsolutePath (FileSet.Files S) = [''/r/a.txt'', ''/r/sub/a.txt'']"
    using r3 f3 a by (intro exI[of _ S3] exI[of _ out3]) simp
  have en: "\<exists>S out. walkDirectories exampleEnv ?dirs = Inr (S, out)
         \<and> mset (FileSet.Files S) = mset (cataloged exampleEnv (candidates exampleEnv ?dirs))
         \<and> map AbsolutePath (FileSet.Files S) = [''/r/a.txt'', ''/r/sub/a.txt'', ''/s/c.txt'']"
    using rn[folded w] fn b by (intro exI[of _ Sn] exI[of _ outn]) simp
  from fair_example e3 en cand show ?thesis by (intro conjI)
qed

section \<open>Properties of the collapser\<close>

text \<open>
  Claim C8 (pruning idempotence). For every tree, \<open>removeEmptyDirectories\<close> applied to
  the tree that a first application has left returns the same verdict and the same tree: it
  removes nothing. After one application every directory node that remains below the node
  it was applied to has a file or a child; that node itself has one exactly when the
  verdict is to keep it. A node that is not a directory is kept as it is.
\<close>

theorem pruning_idempotent:
  "removeEmptyDirectories (snd (removeEmptyDirectories t)) = removeEmptyDirectories t
   \<and> (\<forall>d\<in>set (directoriesBelow (snd (removeEmptyDirectories t))).
         treeFiles d \<noteq> [] \<or> treeChildren d \<noteq> [])
   \<and> (treeIsDir t \<longrightarrow>
         fst (removeEmptyDirectories t)
           = (treeFiles (snd (removeEmptyDirectories t)) \<noteq> []
              \<or> treeChildren (snd (removeEmptyDirectories t)) \<noteq> []))
   \<and> (\<not> treeIsDir t \<longrightarrow> removeEmptyDirectories t = (True, t))"
proof -
  have "removeEmptyDirectories t = (True, t)" if "\<not> treeIsDir t"
    using that by (cases t) simp
  moreover have "fst (removeEmptyDirectories t)
           = (treeFiles (snd (removeEmptyDirectories t)) \<noteq> []
              \<or> treeChildren (snd (removeEmptyDirectories t)) \<noteq> [])" if "treeIsDir t"
    using that prune_fst[of t] by simp
  ultimately show ?thesis
    using prune_idem[of t] prune_below[of _ t] by blast
qed

theorem pruning_idempotent_witness:
  "snd (removeEmptyDirectories exampleTree)
     = Tree [] True []
         [(''withfiles'', Tree ''withfiles'' True [mkFile ''withfiles/test.txt'' ''test.txt'' ''t''] [] False),
          (''empty1'', Tree ''empty1'' True []
             [(''withfile'', Tree ''withfile'' True [mkFile ''empty1/withfile/file.txt'' ''file.txt'' ''f''] [] False)]
             False),
          (''note'', Tree ''note'' False [] [] False)]
         False
   \<and> fst (removeEmptyDirectories exampleTree)
   \<and> removeEmptyDirectories (snd (removeEmptyDirectories exampleTree))
       = removeEmptyDirectories exampleTree
   \<and> map treeName (directoriesBelow (snd (removeEmptyDirectories exampleTree)))
       = [''withfiles'', ''empty1'', ''withfile'']
   \<and> removeEmptyDirectories (Tree ''note'' False [] [] False) = (True, Tree ''note'' False [] [] False)"
proof -
  have a: "snd (removeEmptyDirectories exampleTree)
     = Tree [] True []
         [(''withfiles'', Tree ''withfiles'' True [mkFile ''withfiles/test.txt'' ''test.txt'' ''t''] [] False),
          (''empty1'', Tree ''empty1'' True []
             [(''withfile'', Tree ''withfile'' True [mkFile ''empty1/withfile/file.txt'' ''file.txt'' ''f''] [] False)]
             False),
          (''note'', Tree ''note'' False [] [] False)]
         False"
    by (simp add: exampleTree_def Let_def)
  have b: "fst (removeEmptyDirectories exampleTree)"
    by (simp add: exampleTree_def Let_def)
  have c: "map treeName (directoriesBelow (snd (removeEmptyDirectories exampleTree)))
       = [''withfiles'', ''empty1'', ''withfile'']"
    unfolding a by simp
  have d: "\<not> treeIsDir (Tree ''note'' False [] [] False)" by simp
  from pruning_idempotent [of exampleTree] pruning_idempotent [of "Tree ''note'' False [] [] False"]
    a b c d
  show ?thesis by simp
qed


text \<open>
  Claim C1 (collapse soundness) fails on the code. The unique list of the comparison is
  \<open>dir/a.txt\<close> alone, so the tree has no node for \<open>dir/sub\<close>; the node \<open>dir\<close> has
  no child to disqualify it and \<open>buildSmartTree\<close> marks it entire, although the record
  \<open>dir/sub/b.txt\<close> of the source set lies beneath \<open>dir\<close> and its fingerprint is a key of
  the other set's fingerprint index.
\<close>

theorem collapse_marks_partly_matched_directory:
  "UniqueToSet2 (compareFileSets collapseOther collapseSource) = [mkFile ''dir/a.txt'' ''a.txt'' ''h1'']
   \<and> map_option (map (\<lambda>node. (TreeNode.Name node, IsEntireDir node, Children node,
                                   map RelativePath (TreeNode.Files node))))
        (buildSmartTree (UniqueToSet2 (compareFileSets collapseOther collapseSource))
           collapseSource collapseOther)
       = Some [([], False, [(''dir'', 1)], []), (''dir'', True, [], [''dir/a.txt''])]
   \<and> map RelativePath (FileSet.Files collapseSource) = [''dir/a.txt'', ''dir/sub/b.txt'']
   \<and> map_option (map RelativePath) (HashMap collapseOther (Hash (mkFile ''dir/sub/b.txt'' ''b.txt'' ''h2'')))
       = Some [''copy/c.txt'']"
  by code_simp

text \<open>
  Claim C10 (tree well-formedness), amended. Let no relative path of the file list have an
  empty directory part, as is the case for the paths that \<open>filepath.Rel\<close> returns. In the
  tree of \<open>buildTree\<close>, and in the tree of \<open>buildSmartTree\<close> when it returns one, the child
  stored under a key of a node's \<open>Children\<close> has the key as its \<open>Name\<close>, the node as its
  \<open>Parent\<close> and \<open>IsDir\<close> true, and its path is the node's path with the key added; only
  the root has the empty name; and for every record attached at or below a node, the parts
  into which the separator splits the record's relative path begin with the names collected
  along the \<open>Parent\<close> links of the node, and at least one part follows them: exactly one,
  the name of the file, for a record attached to the node itself. So these names are the
  directory parts of the path, and joined by the separator they are its directory prefix.
\<close>

theorem tree_well_formed:
  assumes "\<forall>f\<in>set files. [] \<notin> set (butlast (splitSep (RelativePath f)))"
    and "t = buildTree files \<or> buildSmartTree files sourceSet otherSet = Some t"
  shows "(\<forall>d<length t. \<forall>(k, c)\<in>set (Children (t ! d)).
            c < length t \<and> TreeNode.Name (t ! c) = k \<and> Parent (t ! c) = Some d \<and> IsDir (t ! c)
            \<and> (\<exists>pathParts. pathPartsLoop t (Some d) [] = Some pathParts
                  \<and> pathPartsLoop t (Some c) [] = Some (pathParts @ [k])))
       \<and> (\<forall>a<length t. (TreeNode.Name (t ! a) = []) = (a = 0))
       \<and> (\<forall>a<length t. \<forall>b. below t a b \<longrightarrow> (\<forall>f\<in>set (TreeNode.Files (t ! b)).
            \<exists>pathParts rest. pathPartsLoop t (Some a) [] = Some pathParts
               \<and> rest \<noteq> [] \<and> (b = a \<longrightarrow> length rest = 1)
               \<and> splitSep (RelativePath f) = pathParts @ rest
               \<and> RelativePath f = joinSep (pathParts @ rest)
               \<and> (a \<noteq> 0 \<longrightarrow> RelativePath f = joinSep pathParts @ ''/'' @ joinSep rest)))"
proof -
  have b: "treeInv (buildTree files)" "attached (buildTree files)"
    using assms(1) by (simp_all add: buildTree_treeInv buildTree_attached)
  have "treeInv t \<and> attached t"
  proof (cases "t = buildTree files")
    case True
    with b show ?thesis by simp
  next
    case False
    with assms(2) have "buildSmartTree files sourceSet otherSet = Some t" by simp
    then have "sameShape (buildTree files) t" by (rule buildSmartTree_result)
    with b show ?thesis by (auto intro: treeInv_sameShape attached_sameShape)
  qed
  then have "treeInv t" and "attached t" by simp_all
  then show ?thesis by (rule tree_properties)
qed

theorem tree_well_formed_witness:
  "TreeNode.Name (buildTree exampleFiles ! 2) = ''sub''
   \<and> Parent (buildTree exampleFiles ! 2) = Some 1
   \<and> IsDir (buildTree exampleFiles ! 2)
   \<and> pathPartsLoop (buildTree exampleFiles) (Some 2) [] = Some [''dir'', ''sub'']
   \<and> (\<exists>rest. splitSep (RelativePath (mkFile ''dir/sub/c.txt'' ''c.txt'' ''h4'')) = [''dir''] @ rest
         \<and> RelativePath (mkFile ''dir/sub/c.txt'' ''c.txt'' ''h4'') = ''dir'' @ ''/'' @ joinSep rest)
   \<and> (\<exists>rest. length rest = 1
         \<and> splitSep (RelativePath (mkFile ''dir/sub/c.txt'' ''c.txt'' ''h4'')) = [''dir'', ''sub''] @ rest)
   \<and> (\<exists>t. buildSmartTree [mkFile ''dir/a.txt'' ''a.txt'' ''h1''] collapseSource collapseOther = Some t
         \<and> TreeNode.Name (t ! 1) = ''dir'' \<and> Parent (t ! 1) = Some 0
         \<and> pathPartsLoop t (Some 1) [] = Some [''dir''])"
proof -
  let ?t = "buildTree exampleFiles"
  have h: "\<forall>f\<in>set exampleFiles. [] \<notin> set (butlast (splitSep (RelativePath f)))"
    by code_simp
  note w = tree_well_formed [OF h, of ?t, OF disjI1, OF refl]
  note w1 = w[THEN conjunct1, rule_format]
  note w3 = w[THEN conjunct2, THEN conjunct2, rule_format]
  have len: "0 < length ?t" "1 < length ?t" "2 < length ?t" by (simp_all add: exampleTree_heap)
  have c12: "(''sub'', 2) \<in> set (Children (?t ! 1))" by (simp add: exampleTree_heap)
  have c01: "(''dir'', 1) \<in> set (Children (?t ! 0))" by (simp add: exampleTree_heap)
  have p0: "pathPartsLoop ?t (Some 0) [] = Some []"
    by (subst pathPartsLoop.simps) (simp add: exampleTree_heap)
  from w1[OF len(1) c01] p0 have p1: "pathPartsLoop ?t (Some 1) [] = Some [''dir'']" by simp
  from w1[OF len(2) c12] p1
  have n2: "TreeNode.Name (?t ! 2) = ''sub'' \<and> Parent (?t ! 2) = Some 1 \<and> IsDir (?t ! 2)"
    and p2: "pathPartsLoop ?t (Some 2) [] = Some [''dir'', ''sub'']" by simp_all
  have bel: "below ?t 1 2" using below.child[OF below.here len(2) c12] .
  have fl: "mkFile ''dir/sub/c.txt'' ''c.txt'' ''h4'' \<in> set (TreeNode.Files (?t ! 2))"
    by (simp add: exampleTree_heap)
  from w3[OF len(2) bel fl] p1
  have r: "\<exists>rest. splitSep (RelativePath (mkFile ''dir/sub/c.txt'' ''c.txt'' ''h4'')) = [''dir''] @ rest
         \<and> RelativePath (mkFile ''dir/sub/c.txt'' ''c.txt'' ''h4'') = ''dir'' @ ''/'' @ joinSep rest"
    by auto
  from w3[OF len(3) below.here fl] p2
  have r2: "\<exists>rest. length rest = 1
         \<and> splitSep (RelativePath (mkFile ''dir/sub/c.txt'' ''c.txt'' ''h4'')) = [''dir'', ''sub''] @ rest"
    by auto
  have hs: "\<forall>f\<in>set [mkFile ''dir/a.txt'' ''a.txt'' ''h1'']. [] \<notin> set (butlast (splitSep (RelativePath f)))"
    by code_simp
  have ev: "map_option (\<lambda>t. (Children (t ! 0), length t))
              (buildSmartTree [mkFile ''dir/a.txt'' ''a.txt'' ''h1''] collapseSource collapseOther)
          = Some ([(''dir'', 1)], 2)"
    by code_simp
  then obtain t where t: "buildSmartTree [mkFile ''dir/a.txt'' ''a.txt'' ''h1''] collapseSource collapseOther = Some t"
    and ct: "Children (t ! 0) = [(''dir'', 1)]" and lt: "length t = 2" by auto
  note ws = tree_well_formed [OF hs disjI2, OF t]
  have z: "0 < length t" using lt by simp
  have n0: "TreeNode.Name (t ! 0) = []"
    using ws[THEN conjunct2, THEN conjunct1, rule_format, OF z] by simp
  have q0: "pathPartsLoop t (Some 0) [] = Some []"
    using n0 by (subst pathPartsLoop.simps) simp
  have m: "(''dir'', 1) \<in> set (Children (t ! 0))" using ct by simp
  from ws[THEN conjunct1, rule_format, OF z m] q0
  have "TreeNode.Name (t ! 1) = ''dir'' \<and> Parent (t ! 1) = Some 0
      \<and> pathPartsLoop t (Some 1) [] = Some [''dir'']" by simp
  with t have s: "\<exists>t. buildSmartTree [mkFile ''dir/a.txt'' ''a.txt'' ''h1''] collapseSource collapseOther = Some t
         \<and> TreeNode.Name (t ! 1) = ''dir'' \<and> Parent (t ! 1) = Some 0
         \<and> pathPartsLoop t (Some 1) [] = Some [''dir'']"
    by blast
  from n2 p2 r r2 s show ?thesis by (intro conjI) simp_all
qed

text \<open>
  As the claim is stated, for every file list, it fails: a relative path that begins with
  the separator has an empty first part, so \<open>buildTree\<close> creates a child of the root with
  the empty name, the loop over the \<open>Parent\<close> links stops at that child, and the joined
  names do not lead to the record's relative path.
\<close>

theorem tree_empty_name_counterexample:
  "1 < length (buildTree [mkFile ''/a.txt'' ''a.txt'' ''h''])
   \<and> Children (buildTree [mkFile ''/a.txt'' ''a.txt'' ''h''] ! 0) = [([], 1)]
   \<and> TreeNode.Name (buildTree [mkFile ''/a.txt'' ''a.txt'' ''h''] ! 1) = []
   \<and> TreeNode.Files (buildTree [mkFile ''/a.txt'' ''a.txt'' ''h''] ! 1) = [mkFile ''/a.txt'' ''a.txt'' ''h'']
   \<and> pathPartsLoop (buildTree [mkFile ''/a.txt'' ''a.txt'' ''h'']) (Some 1) [] = Some []
   \<and> RelativePath (mkFile ''/a.txt'' ''a.txt'' ''h'') \<noteq> joinSep ([] @ [''a.txt''])"
  by code_simp

end
